theory Spec2Isabelle
  imports Complex_Main "HOL-Library.Product_Lexorder"
begin

section \<open>Data model of \<^verbatim>\<open>minesweeper.py\<close>\<close>

text \<open>
  A cell is a Python tuple \<^verbatim>\<open>(i, j)\<close> of unbounded integers. The exceptions the
  modelled code can raise are values of \<open>error\<close>; \<^verbatim>\<open>OverflowError\<close> is what the division
  of two integers raises when the quotient is too large for a float.
\<close>

type_synonym cell = "int \<times> int"

datatype error = ValueError | ZeroDivisionError | IndexError | OverflowError

text \<open>
  Python iterates a \<^verbatim>\<open>set\<close> in an order that the language leaves open. Every loop
  over a set is modelled as a fold over \<open>set_iter\<close>, which lists the set in ascending
  order. The lemmas \<open>fold_ai_mark_mine_order\<close>, \<open>fold_ai_mark_safe_order\<close> and
  \<open>fold_known_mines_order\<close> below show that the marking loops and the construction of a
  new sentence give the same state for every other listing. The order shows only in
  which safe cell \<^verbatim>\<open>make_safe_move\<close> picks and in which of several cells of least score
  \<^verbatim>\<open>make_random_move\<close> picks.
\<close>

definition set_iter :: "cell set \<Rightarrow> cell list" where
  "set_iter S = sorted_list_of_set S"

subsection \<open>class Sentence\<close>

record sentence =
  cells :: "cell set"
  count :: int

text \<open>\<^verbatim>\<open>Sentence.__eq__\<close>: same cells and same count.\<close>

definition sentence_eq :: "sentence \<Rightarrow> sentence \<Rightarrow> bool" where
  "sentence_eq a b = (cells a = cells b \<and> count a = count b)"

text \<open>
  \<^verbatim>\<open>known_mines\<close> and \<^verbatim>\<open>known_safes\<close> fall off their end when the test fails, which
  returns Python's \<^verbatim>\<open>None\<close>.
\<close>

definition known_mines :: "sentence \<Rightarrow> cell set option" where
  "known_mines s =
     (if count s \<noteq> 0
      then (if int (card (cells s)) = count s then Some (cells s) else None)
      else None)"

definition known_safes :: "sentence \<Rightarrow> cell set option" where
  "known_safes s = (if count s = 0 then Some (cells s) else None)"

definition mark_mine :: "cell \<Rightarrow> sentence \<Rightarrow> sentence" where
  "mark_mine c s =
     (if c \<in> cells s then s\<lparr>cells := cells s - {c}, count := count s - 1\<rparr> else s)"

definition mark_safe :: "cell \<Rightarrow> sentence \<Rightarrow> sentence" where
  "mark_safe c s = (if c \<in> cells s then s\<lparr>cells := cells s - {c}\<rparr> else s)"

text \<open>The truth value Python gives to a returned set or \<^verbatim>\<open>None\<close> in an \<^verbatim>\<open>if\<close>.\<close>

definition truthy :: "cell set option \<Rightarrow> bool" where
  "truthy r = (case r of None \<Rightarrow> False | Some S \<Rightarrow> S \<noteq> {})"

subsection \<open>class MinesweeperAI\<close>

text \<open>
  Sentences are mutable objects: the list \<^verbatim>\<open>self.knowledge\<close> and the local variables
  of the methods hold references to them, and \<^verbatim>\<open>list.remove\<close> compares by \<^verbatim>\<open>__eq__\<close>,
  not by identity. The state therefore has a store \<open>heap\<close> from references to
  sentences; \<open>knowledge\<close> is the list of references and \<open>next_ref\<close> the next unused one.
\<close>

type_synonym ref = nat

record ai =
  height :: int
  width :: int
  moves_made :: "cell set"
  mines :: "cell set"
  safes :: "cell set"
  knowledge :: "ref list"
  heap :: "ref \<Rightarrow> sentence"
  next_ref :: ref

definition ai_init :: "int \<Rightarrow> int \<Rightarrow> ai" where
  "ai_init h w =
     \<lparr>height = h, width = w, moves_made = {}, mines = {}, safes = {},
      knowledge = [], heap = (\<lambda>_. \<lparr>cells = {}, count = 0\<rparr>), next_ref = 0\<rparr>"

definition update_sentence :: "(sentence \<Rightarrow> sentence) \<Rightarrow> ref \<Rightarrow> ai \<Rightarrow> ai" where
  "update_sentence f r s = s\<lparr>heap := (heap s)(r := f (heap s r))\<rparr>"

text \<open>\<^verbatim>\<open>MinesweeperAI.mark_mine\<close> and \<^verbatim>\<open>mark_safe\<close> (the \<^verbatim>\<open>print\<close> is left out).\<close>

definition ai_mark_mine :: "cell \<Rightarrow> ai \<Rightarrow> ai" where
  "ai_mark_mine c s =
     fold (update_sentence (mark_mine c)) (knowledge s) (s\<lparr>mines := insert c (mines s)\<rparr>)"

definition ai_mark_safe :: "cell \<Rightarrow> ai \<Rightarrow> ai" where
  "ai_mark_safe c s =
     fold (update_sentence (mark_safe c)) (knowledge s) (s\<lparr>safes := insert c (safes s)\<rparr>)"

text \<open>
  The two nested \<^verbatim>\<open>range\<close> loops of \<^verbatim>\<open>neighbourhood\<close> and \<^verbatim>\<open>nearby_mines\<close> visit
  the cells \<open>around c\<close> in this order. \<^verbatim>\<open>neighbourhood\<close> skips the cell itself and
  keeps the cells inside the bounds.
\<close>

definition around :: "cell \<Rightarrow> cell list" where
  "around c =
     concat (map (\<lambda>i. map (\<lambda>j. (i, j)) [snd c - 1, snd c, snd c + 1])
               [fst c - 1, fst c, fst c + 1])"

definition in_bounds :: "int \<Rightarrow> int \<Rightarrow> cell \<Rightarrow> bool" where
  "in_bounds h w d = (0 \<le> fst d \<and> fst d < h \<and> 0 \<le> snd d \<and> snd d < w)"

definition neighbourhood :: "int \<Rightarrow> int \<Rightarrow> cell \<Rightarrow> cell set" where
  "neighbourhood h w c = set (filter (\<lambda>d. d \<noteq> c \<and> in_bounds h w d) (around c))"

text \<open>
  \<^verbatim>\<open>list.remove(x)\<close> deletes the first element equal to \<open>x\<close> under \<^verbatim>\<open>__eq__\<close> and raises
  \<^verbatim>\<open>ValueError\<close> when there is none.
\<close>

fun remove_first :: "('a \<Rightarrow> bool) \<Rightarrow> 'a list \<Rightarrow> 'a list option" where
  "remove_first P [] = None"
| "remove_first P (x # xs) =
     (if P x then Some xs else map_option ((#) x) (remove_first P xs))"

definition knowledge_remove :: "ref \<Rightarrow> ai \<Rightarrow> error + ai" where
  "knowledge_remove r s =
     (case remove_first (\<lambda>r'. sentence_eq (heap s r') (heap s r)) (knowledge s) of
        None \<Rightarrow> Inl ValueError
      | Some rs \<Rightarrow> Inr (s\<lparr>knowledge := rs\<rparr>))"

text \<open>
  \<^verbatim>\<open>check_knowledge\<close>, first half: the \<^verbatim>\<open>if/elif/elif\<close> that resolves and removes the
  sentence. The loops over \<^verbatim>\<open>sentence.cells\<close> run over the set object the sentence had
  when the loop started, since \<^verbatim>\<open>Sentence.mark_safe\<close> rebinds \<^verbatim>\<open>self.cells\<close> to a new set.
\<close>

definition resolve :: "ref \<Rightarrow> ai \<Rightarrow> error + ai" where
  "resolve r s =
     (if card (cells (heap s r)) = 0 then knowledge_remove r s
      else if count (heap s r) = 0
        then knowledge_remove r (fold ai_mark_safe (set_iter (cells (heap s r))) s)
      else if int (card (cells (heap s r))) = count (heap s r)
        then knowledge_remove r (fold ai_mark_mine (set_iter (cells (heap s r))) s)
      else Inr s)"

text \<open>
  Second half: the body of \<^verbatim>\<open>for sentence2 in self.knowledge\<close>. The two tests are
  separate \<^verbatim>\<open>if\<close>s, so the second one sees what the first one wrote.
\<close>

definition subtract_sentence :: "ref \<Rightarrow> ref \<Rightarrow> ai \<Rightarrow> ai" where
  "subtract_sentence r r2 s =
     update_sentence (\<lambda>a. \<lparr>cells = cells a - cells (heap s r2),
                           count = count a - count (heap s r2)\<rparr>) r s"

definition subset_step :: "ref \<Rightarrow> ref \<Rightarrow> ai \<Rightarrow> ai" where
  "subset_step r r2 s =
     (let s1 = (if cells (heap s r2) \<subset> cells (heap s r) then subtract_sentence r r2 s else s)
      in if cells (heap s1 r) \<subset> cells (heap s1 r2) then subtract_sentence r2 r s1 else s1)"

definition check_knowledge :: "ref \<Rightarrow> ai \<Rightarrow> error + ai" where
  "check_knowledge r s =
     (case resolve r s of
        Inl e \<Rightarrow> Inl e
      | Inr s1 \<Rightarrow> Inr (fold (subset_step r) (knowledge s1) s1))"

text \<open>
  \<^verbatim>\<open>for sentence in self.knowledge: self.check_knowledge(sentence)\<close>. The list is
  mutated while it is iterated: Python's list iterator keeps an index, reads the element
  at that index from the list as it is now, and stops when the index reaches the current
  length. So the element that follows a removed one is skipped.
\<close>

lemma knowledge_update_sentence [simp]: "knowledge (update_sentence f r s) = knowledge s"
  by (simp add: update_sentence_def)

lemma knowledge_fold_update_sentence [simp]:
  "knowledge (fold (update_sentence f) rs s) = knowledge s"
  by (induction rs arbitrary: s) simp_all

lemma knowledge_ai_mark_mine [simp]: "knowledge (ai_mark_mine c s) = knowledge s"
  by (simp add: ai_mark_mine_def)

lemma knowledge_ai_mark_safe [simp]: "knowledge (ai_mark_safe c s) = knowledge s"
  by (simp add: ai_mark_safe_def)

lemma knowledge_fold_ai_mark_mine [simp]: "knowledge (fold ai_mark_mine cs s) = knowledge s"
  by (induction cs arbitrary: s) simp_all

lemma knowledge_fold_ai_mark_safe [simp]: "knowledge (fold ai_mark_safe cs s) = knowledge s"
  by (induction cs arbitrary: s) simp_all

lemma knowledge_subset_step [simp]: "knowledge (subset_step r r2 s) = knowledge s"
  by (simp add: subset_step_def subtract_sentence_def Let_def)

lemma knowledge_fold_subset_step [simp]:
  "knowledge (fold (subset_step r) rs s) = knowledge s"
  by (induction rs arbitrary: s) simp_all

lemma remove_first_length:
  "remove_first P xs = Some ys \<Longrightarrow> Suc (length ys) = length xs"
  by (induction xs arbitrary: ys) (auto split: if_splits)

lemma knowledge_remove_length:
  "knowledge_remove r s = Inr s' \<Longrightarrow> Suc (length (knowledge s')) = length (knowledge s)"
  by (auto simp: knowledge_remove_def split: option.splits dest: remove_first_length)

lemma resolve_length:
  "resolve r s = Inr s' \<Longrightarrow> length (knowledge s') \<le> length (knowledge s)"
  by (auto simp: resolve_def split: if_splits dest!: knowledge_remove_length)

lemma check_knowledge_length:
  "check_knowledge r s = Inr s' \<Longrightarrow> length (knowledge s') \<le> length (knowledge s)"
  by (auto simp: check_knowledge_def split: sum.splits dest: resolve_length)

function check_all :: "nat \<Rightarrow> ai \<Rightarrow> error + ai" where
  "check_all i s =
     (if i < length (knowledge s)
      then (case check_knowledge (knowledge s ! i) s of
              Inl e \<Rightarrow> Inl e
            | Inr s' \<Rightarrow> check_all (Suc i) s')
      else Inr s)"
  by pat_completeness auto
termination
proof (relation "measure (\<lambda>(i, s). length (knowledge s) - i)")
  show "wf (measure (\<lambda>(i, s). length (knowledge s) - i))"
    by simp
next
  fix i :: nat and s s' :: ai
  assume "i < length (knowledge s)" and "check_knowledge (knowledge s ! i) s = Inr s'"
  then show "((Suc i, s'), (i, s)) \<in> measure (\<lambda>(i, s). length (knowledge s) - i)"
    using check_knowledge_length [of "knowledge s ! i" s s'] by simp
qed

declare check_all.simps [simp del]

text \<open>
  \<^verbatim>\<open>add_knowledge\<close>, step 4 (lines 250 to 256): the body of the loop for one sentence,
  its two \<^verbatim>\<open>if\<close>s one after the other. \<^verbatim>\<open>known_mines()\<close> is called again for the inner
  loop and copied, so the loop runs over the cells the sentence had before the first
  \<^verbatim>\<open>mark_mine\<close>.
\<close>

definition conclude_mines :: "ref \<Rightarrow> ai \<Rightarrow> ai" where
  "conclude_mines r s =
     (if truthy (known_mines (heap s r))
      then (case known_mines (heap s r) of
              None \<Rightarrow> s
            | Some cs \<Rightarrow> fold ai_mark_mine (set_iter cs) s)
      else s)"

definition conclude_safes :: "ref \<Rightarrow> ai \<Rightarrow> ai" where
  "conclude_safes r s =
     (if truthy (known_safes (heap s r))
      then (case known_safes (heap s r) of
              None \<Rightarrow> s
            | Some cs \<Rightarrow> fold ai_mark_safe (set_iter cs) s)
      else s)"

definition conclude :: "ref \<Rightarrow> ai \<Rightarrow> ai" where
  "conclude r s = conclude_safes r (conclude_mines r s)"

text \<open>
  Lines 249 to 263: the inference that ends a turn, for the new sentence \<open>r\<close>: step 4,
  \<^verbatim>\<open>check_knowledge(NewSentence)\<close>, then the two passes over the list.
\<close>

definition infer :: "ref \<Rightarrow> ai \<Rightarrow> error + ai" where
  "infer r s =
     (case check_knowledge r (fold conclude (knowledge s) s) of
        Inl e \<Rightarrow> Inl e
      | Inr s1 \<Rightarrow>
          (case check_all 0 s1 of
             Inl e \<Rightarrow> Inl e
           | Inr s2 \<Rightarrow> check_all 0 s2))"

text \<open>
  Lines 238 to 244: the new sentence. The loop runs over the set the sentence was built
  with; \<^verbatim>\<open>Sentence.mark_mine\<close> rebinds \<^verbatim>\<open>NewSentence.cells\<close>.
\<close>

definition new_sentence :: "cell \<Rightarrow> int \<Rightarrow> ai \<Rightarrow> sentence" where
  "new_sentence c n s =
     (let cs = neighbourhood (height s) (width s) c - safes s
      in fold (\<lambda>c' sen. if c' \<in> mines s then mark_mine c' sen else sen)
           (set_iter cs) \<lparr>cells = cs, count = n\<rparr>)"

text \<open>Lines 225 to 246: the state when \<^verbatim>\<open>self.knowledge.append(NewSentence)\<close> has run.\<close>

definition insert_sentence :: "cell \<Rightarrow> int \<Rightarrow> ai \<Rightarrow> ai" where
  "insert_sentence c n s =
     (let s1 = s\<lparr>moves_made := insert c (moves_made s)\<rparr>;
          s2 = (if c \<notin> safes s1 then ai_mark_safe c s1 else s1)
      in s2\<lparr>knowledge := knowledge s2 @ [next_ref s2],
             heap := (heap s2)(next_ref s2 := new_sentence c n s2),
             next_ref := Suc (next_ref s2)\<rparr>)"

definition add_knowledge :: "cell \<Rightarrow> int \<Rightarrow> ai \<Rightarrow> error + ai" where
  "add_knowledge c n s = infer (next_ref s) (insert_sentence c n s)"

text \<open>\<^verbatim>\<open>make_safe_move\<close>: the first cell the iteration over the difference set yields.\<close>

definition make_safe_move :: "ai \<Rightarrow> cell option" where
  "make_safe_move s =
     (case set_iter (safes s - moves_made s) of [] \<Rightarrow> None | c # _ \<Rightarrow> Some c)"

subsection \<open>The score table and \<^verbatim>\<open>make_random_move\<close>\<close>

text \<open>
  \<^verbatim>\<open>Cell_stat.all_cell\<close> is a class attribute: one dictionary for the whole process,
  outside every \<^verbatim>\<open>MinesweeperAI\<close> object. It is a parameter and a result of
  \<open>make_random_move\<close>. A Python dictionary keeps its keys in insertion order, which
  \<^verbatim>\<open>min\<close> follows, so the table is an association list. The scores are Python floats;
  they are modelled as exact rationals, so rounding is not part of the model.
\<close>

type_synonym score_table = "(cell \<times> rat) list"

definition add_score :: "rat \<Rightarrow> cell \<Rightarrow> score_table \<Rightarrow> score_table" where
  "add_score p c tbl =
     (if c \<notin> fst ` set tbl then tbl @ [(c, p)]
      else map (\<lambda>(k, v). if k = c then (k, v + p) else (k, v)) tbl)"

text \<open>
  Lines 331 to 338. The division raises \<^verbatim>\<open>ZeroDivisionError\<close> for a sentence with no
  cells; what earlier sentences added to the table stays.
\<close>

fun score_sentences :: "(ref \<Rightarrow> sentence) \<Rightarrow> ref list \<Rightarrow> score_table \<Rightarrow> error option \<times> score_table" where
  "score_sentences h [] tbl = (None, tbl)"
| "score_sentences h (r # rs) tbl =
     (if card (cells (h r)) = 0 then (Some ZeroDivisionError, tbl)
      else score_sentences h rs
             (fold (add_score (of_int (count (h r)) / of_nat (card (cells (h r)))))
                (set_iter (cells (h r))) tbl))"

text \<open>\<^verbatim>\<open>min(d, key=d.get)\<close>: the first key, in insertion order, whose value is least.\<close>

definition min_key :: "score_table \<Rightarrow> cell option" where
  "min_key tbl =
     (case tbl of
        [] \<Rightarrow> None
      | e # es \<Rightarrow> Some (fst (fold (\<lambda>x best. if snd x < snd best then x else best) es e)))"

text \<open>Lines 346 to 349: the row-major scan; falling off its end returns \<^verbatim>\<open>None\<close>.\<close>

definition first_free :: "ai \<Rightarrow> cell option" where
  "first_free s =
     find (\<lambda>c. c \<notin> mines s \<union> moves_made s)
       (concat (map (\<lambda>i. map (\<lambda>j. (i, j)) [0 .. width s - 1]) [0 .. height s - 1]))"

definition make_random_move :: "ai \<Rightarrow> score_table \<Rightarrow> (error + cell option) \<times> score_table" where
  "make_random_move s tbl =
     (case score_sentences (heap s) (knowledge s) tbl of
        (Some e, tbl') \<Rightarrow> (Inl e, tbl')
      | (None, tbl') \<Rightarrow>
          (if tbl' \<noteq> [] then (Inr (min_key tbl'), tbl') else (Inr (first_free s), tbl')))"

text \<open>
  Lines 331 to 338 again, with the arithmetic of floats left open. \<open>score_sentences\<close>
  computes the scores exactly, so it has neither the rounding of a float division and a
  float addition nor the \<^verbatim>\<open>OverflowError\<close> of \<^verbatim>\<open>sentence.count/len(sentence.cells)\<close>. Here
  the scores are of any type, \<open>fdiv\<close> is the division of the count by the number of cells,
  which returns a score or raises, and \<open>fadd\<close> is the addition of \<^verbatim>\<open>+=\<close>. The division by
  \<^verbatim>\<open>len(sentence.cells) = 0\<close> raises \<^verbatim>\<open>ZeroDivisionError\<close> whatever the count. What is proved
  of this loop for every \<open>fdiv\<close> and \<open>fadd\<close> holds of the loop on floats.
\<close>

definition add_score_with :: "('v \<Rightarrow> 'v \<Rightarrow> 'v) \<Rightarrow> 'v \<Rightarrow> cell \<Rightarrow> (cell \<times> 'v) list \<Rightarrow> (cell \<times> 'v) list" where
  "add_score_with fadd p c tbl =
     (if c \<notin> fst ` set tbl then tbl @ [(c, p)]
      else map (\<lambda>(k, v). if k = c then (k, fadd v p) else (k, v)) tbl)"

fun score_sentences_with ::
  "(int \<Rightarrow> nat \<Rightarrow> error + 'v) \<Rightarrow> ('v \<Rightarrow> 'v \<Rightarrow> 'v) \<Rightarrow> (ref \<Rightarrow> sentence) \<Rightarrow> ref list \<Rightarrow>
   (cell \<times> 'v) list \<Rightarrow> error option \<times> (cell \<times> 'v) list" where
  "score_sentences_with fdiv fadd h [] tbl = (None, tbl)"
| "score_sentences_with fdiv fadd h (r # rs) tbl =
     (if card (cells (h r)) = 0 then (Some ZeroDivisionError, tbl)
      else case fdiv (count (h r)) (card (cells (h r))) of
             Inl e \<Rightarrow> (Some e, tbl)
           | Inr p \<Rightarrow> score_sentences_with fdiv fadd h rs
                       (fold (add_score_with fadd p) (set_iter (cells (h r))) tbl))"

text \<open>The exact division, with which the loop is \<open>score_sentences\<close> (\<open>score_sentences_exact\<close>).\<close>

definition exact_quot :: "int \<Rightarrow> nat \<Rightarrow> error + rat" where
  "exact_quot c n = Inr (of_int c / of_nat n)"

subsection \<open>class Minesweeper\<close>

record minesweeper =
  ms_height :: int
  ms_width :: int
  ms_mines :: "cell set"
  board :: "bool list list"
  mines_found :: "cell set"

text \<open>Python's \<^verbatim>\<open>xs[i]\<close>: a negative index counts from the end.\<close>

definition py_index :: "'a list \<Rightarrow> int \<Rightarrow> error + 'a" where
  "py_index xs i =
     (let n = int (length xs); k = (if i < 0 then n + i else i)
      in if 0 \<le> k \<and> k < n then Inr (xs ! nat k) else Inl IndexError)"

definition is_mine :: "minesweeper \<Rightarrow> cell \<Rightarrow> error + bool" where
  "is_mine g c =
     (case py_index (board g) (fst c) of
        Inl e \<Rightarrow> Inl e
      | Inr row \<Rightarrow> py_index row (snd c))"

text \<open>
  \<^verbatim>\<open>__init__\<close>. The calls of \<^verbatim>\<open>random.randrange\<close> are answered from a list of draws, one
  pair per round of the \<^verbatim>\<open>while\<close> loop. \<^verbatim>\<open>randrange(n)\<close> raises \<^verbatim>\<open>ValueError\<close> for
  \<open>n \<le> 0\<close> and otherwise returns a number from \<open>0\<close> to \<open>n - 1\<close>, so a draw outside
  that range is not an answer it can give. The result is \<open>None\<close> when the draws end
  (or are not such answers) before the loop does.
\<close>

definition set_board :: "cell \<Rightarrow> bool list list \<Rightarrow> bool list list" where
  "set_board c b = b[nat (fst c) := (b ! nat (fst c))[nat (snd c) := True]]"

fun place_mines :: "int \<Rightarrow> cell list \<Rightarrow> minesweeper \<Rightarrow> (error + minesweeper) option" where
  "place_mines n ds g =
     (if int (card (ms_mines g)) = n then Some (Inr g)
      else if ms_height g \<le> 0 \<or> ms_width g \<le> 0 then Some (Inl ValueError)
      else (case ds of
              [] \<Rightarrow> None
            | d # ds' \<Rightarrow>
                if \<not> in_bounds (ms_height g) (ms_width g) d then None
                else if \<not> board g ! nat (fst d) ! nat (snd d)
                then place_mines n ds' (g\<lparr>ms_mines := insert d (ms_mines g),
                                          board := set_board d (board g)\<rparr>)
                else place_mines n ds' g))"

declare place_mines.simps [simp del]

definition minesweeper_init :: "int \<Rightarrow> int \<Rightarrow> int \<Rightarrow> cell list \<Rightarrow> (error + minesweeper) option" where
  "minesweeper_init h w n ds =
     place_mines n ds
       \<lparr>ms_height = h, ms_width = w, ms_mines = {},
        board = replicate (nat h) (replicate (nat w) False), mines_found = {}\<rparr>"

text \<open>\<^verbatim>\<open>nearby_mines\<close>: the board is read only for a cell inside the bounds.\<close>

definition nearby_mines :: "minesweeper \<Rightarrow> cell \<Rightarrow> error + int" where
  "nearby_mines g c =
     fold (\<lambda>d acc.
             case acc of
               Inl e \<Rightarrow> Inl e
             | Inr k \<Rightarrow>
                 if d = c then Inr k
                 else if in_bounds (ms_height g) (ms_width g) d
                 then (case is_mine g d of
                         Inl e \<Rightarrow> Inl e
                       | Inr b \<Rightarrow> Inr (if b then k + 1 else k))
                 else Inr k)
       (around c) (Inr 0)"

definition won :: "minesweeper \<Rightarrow> bool" where
  "won g = (mines_found g = ms_mines g)"

text \<open>
  \<^verbatim>\<open>print\<close>, \<^verbatim>\<open>is_mine\<close>, \<^verbatim>\<open>nearby_mines\<close>, \<^verbatim>\<open>neighbourhood\<close> and \<^verbatim>\<open>won\<close> are the methods
  of the class besides \<^verbatim>\<open>__init__\<close>. None of them assigns to an attribute of \<^verbatim>\<open>self\<close> or
  mutates the board or the mine set, so the game after a call is the game before it.
\<close>

datatype ms_call = Print | Is_mine cell | Nearby_mines cell | Neighbourhood cell | Won

fun ms_after :: "ms_call \<Rightarrow> minesweeper \<Rightarrow> minesweeper" where
  "ms_after Print g = g"
| "ms_after (Is_mine c) g = g"
| "ms_after (Nearby_mines c) g = g"
| "ms_after (Neighbourhood c) g = g"
| "ms_after Won g = g"

subsection \<open>Playing on a fixed board\<close>

text \<open>
  The operations that change the knowledge base. A turn is \<open>Add_knowledge c\<close>: the game
  reveals the cell \<open>c\<close> and hands \<^verbatim>\<open>add_knowledge\<close> the count \<^verbatim>\<open>nearby_mines(c)\<close> of its
  board. \<open>Check_knowledge i\<close> calls \<^verbatim>\<open>check_knowledge\<close> on the sentence at index \<open>i\<close> of the
  knowledge list, and does nothing when the list is shorter.
\<close>

datatype kb_op = Add_knowledge cell | Mark_mine cell | Mark_safe cell | Check_knowledge nat

fun apply_op :: "minesweeper \<Rightarrow> kb_op \<Rightarrow> ai \<Rightarrow> error + ai" where
  "apply_op g (Add_knowledge c) s =
     (case nearby_mines g c of Inl e \<Rightarrow> Inl e | Inr n \<Rightarrow> add_knowledge c n s)"
| "apply_op g (Mark_mine c) s = Inr (ai_mark_mine c s)"
| "apply_op g (Mark_safe c) s = Inr (ai_mark_safe c s)"
| "apply_op g (Check_knowledge i) s =
     (if i < length (knowledge s) then check_knowledge (knowledge s ! i) s else Inr s)"

fun run :: "minesweeper \<Rightarrow> kb_op list \<Rightarrow> ai \<Rightarrow> error + ai" where
  "run g [] s = Inr s"
| "run g (op # ops) s =
     (case apply_op g op s of Inl e \<Rightarrow> Inl e | Inr s' \<Rightarrow> run g ops s')"

text \<open>
  An operation is consistent with the board when what it tells the knowledge base is
  true of the board: a revealed or safe-marked cell is not a mine of the board, a
  mine-marked cell is one.
\<close>

fun consistent :: "minesweeper \<Rightarrow> kb_op \<Rightarrow> bool" where
  "consistent g (Add_knowledge c) = (c \<notin> ms_mines g)"
| "consistent g (Mark_mine c) = (c \<in> ms_mines g)"
| "consistent g (Mark_safe c) = (c \<notin> ms_mines g)"
| "consistent g (Check_knowledge i) = True"

definition turns :: "minesweeper \<Rightarrow> cell list \<Rightarrow> ai \<Rightarrow> error + ai" where
  "turns g cs s = run g (map Add_knowledge cs) s"

text \<open>
  \<^verbatim>\<open>add_knowledge(cell, count)\<close> takes the count from its caller. A sequence of calls with
  any cells and counts, whether or not a board gives these counts:
\<close>

fun add_knowledge_calls :: "(cell \<times> int) list \<Rightarrow> ai \<Rightarrow> error + ai" where
  "add_knowledge_calls [] s = Inr s"
| "add_knowledge_calls ((c, n) # cs) s =
     (case add_knowledge c n s of Inl e \<Rightarrow> Inl e | Inr s' \<Rightarrow> add_knowledge_calls cs s')"

subsection \<open>A board for the examples\<close>

text \<open>
  The 3 by 3 board with a mine in each corner, as \<^verbatim>\<open>__init__(3, 3, 4)\<close> builds it when
  \<^verbatim>\<open>randrange\<close> draws the four corners.
\<close>

definition corner_board :: minesweeper where
  "corner_board =
     \<lparr>ms_height = 3, ms_width = 3, ms_mines = {(0, 0), (0, 2), (2, 0), (2, 2)},
      board = [[True, False, True], [False, False, False], [True, False, True]],
      mines_found = {}\<rparr>"

section \<open>Lemmas on the operations\<close>

lemma set_iter_set [simp]: "finite S \<Longrightarrow> set (set_iter S) = S"
  by (simp add: set_iter_def)

lemma set_iter_distinct [simp]: "distinct (set_iter S)"
  by (simp add: set_iter_def)

lemma mark_mine_idem: "mark_mine c (mark_mine c sen) = mark_mine c sen"
  by (simp add: mark_mine_def)

lemma mark_safe_idem: "mark_safe c (mark_safe c sen) = mark_safe c sen"
  by (simp add: mark_safe_def)

lemma fold_update_sentence_frame [simp]:
  "height (fold (update_sentence f) rs s) = height s"
  "width (fold (update_sentence f) rs s) = width s"
  "moves_made (fold (update_sentence f) rs s) = moves_made s"
  "mines (fold (update_sentence f) rs s) = mines s"
  "safes (fold (update_sentence f) rs s) = safes s"
  "next_ref (fold (update_sentence f) rs s) = next_ref s"
  by (induction rs arbitrary: s) (simp_all add: update_sentence_def)

lemma fold_update_sentence_heap:
  assumes "\<And>x. f (f x) = f x"
  shows "heap (fold (update_sentence f) rs s) r = (if r \<in> set rs then f (heap s r) else heap s r)"
  by (induction rs arbitrary: s) (simp_all add: update_sentence_def assms)

lemma ai_mark_mine_fields [simp]:
  "height (ai_mark_mine c s) = height s"
  "width (ai_mark_mine c s) = width s"
  "moves_made (ai_mark_mine c s) = moves_made s"
  "mines (ai_mark_mine c s) = insert c (mines s)"
  "safes (ai_mark_mine c s) = safes s"
  "next_ref (ai_mark_mine c s) = next_ref s"
  "heap (ai_mark_mine c s) r =
     (if r \<in> set (knowledge s) then mark_mine c (heap s r) else heap s r)"
  by (simp_all add: ai_mark_mine_def fold_update_sentence_heap mark_mine_idem)

lemma ai_mark_safe_fields [simp]:
  "height (ai_mark_safe c s) = height s"
  "width (ai_mark_safe c s) = width s"
  "moves_made (ai_mark_safe c s) = moves_made s"
  "mines (ai_mark_safe c s) = mines s"
  "safes (ai_mark_safe c s) = insert c (safes s)"
  "next_ref (ai_mark_safe c s) = next_ref s"
  "heap (ai_mark_safe c s) r =
     (if r \<in> set (knowledge s) then mark_safe c (heap s r) else heap s r)"
  by (simp_all add: ai_mark_safe_def fold_update_sentence_heap mark_safe_idem)

definition sentence_ok :: "cell set \<Rightarrow> sentence \<Rightarrow> bool" where
  "sentence_ok M sen \<longleftrightarrow> finite (cells sen) \<and> count sen = int (card (cells sen \<inter> M))"

definition sound :: "cell set \<Rightarrow> ai \<Rightarrow> bool" where
  "sound M s \<longleftrightarrow> mines s \<subseteq> M \<and> safes s \<inter> M = {} \<and> (\<forall>r. sentence_ok M (heap s r))"

lemma sentence_ok_mark_mine: "c \<in> M \<Longrightarrow> sentence_ok M sen \<Longrightarrow> sentence_ok M (mark_mine c sen)"
proof -
  assume c: "c \<in> M" and ok: "sentence_ok M sen"
  show ?thesis
  proof (cases "c \<in> cells sen")
    case True
    have fin: "finite (cells sen \<inter> M)" using ok by (simp add: sentence_ok_def)
    have "(cells sen - {c}) \<inter> M = (cells sen \<inter> M) - {c}" by blast
    moreover have "c \<in> cells sen \<inter> M" using True c by simp
    moreover have "0 < card (cells sen \<inter> M)"
      using fin True c by (auto simp: card_gt_0_iff)
    ultimately have "int (card ((cells sen - {c}) \<inter> M)) = int (card (cells sen \<inter> M)) - 1"
      using fin by (simp add: card_Diff_singleton of_nat_diff)
    then show ?thesis using ok True by (simp add: sentence_ok_def mark_mine_def)
  next
    case False
    then show ?thesis using ok by (simp add: mark_mine_def)
  qed
qed

lemma sentence_ok_mark_safe: "c \<notin> M \<Longrightarrow> sentence_ok M sen \<Longrightarrow> sentence_ok M (mark_safe c sen)"
proof -
  assume c: "c \<notin> M" and ok: "sentence_ok M sen"
  have "(cells sen - {c}) \<inter> M = cells sen \<inter> M" using c by blast
  then show ?thesis using ok by (simp add: sentence_ok_def mark_safe_def)
qed

lemma sentence_ok_all_mines:
  assumes "sentence_ok M sen" and "int (card (cells sen)) = count sen"
  shows "cells sen \<subseteq> M"
proof -
  have "finite (cells sen)" and "card (cells sen \<inter> M) = card (cells sen)"
    using assms by (simp_all add: sentence_ok_def)
  then have "cells sen \<inter> M = cells sen"
    by (intro card_subset_eq) simp_all
  then show ?thesis by blast
qed

lemma sentence_ok_all_safe:
  assumes "sentence_ok M sen" and "count sen = 0"
  shows "cells sen \<inter> M = {}"
proof -
  have "finite (cells sen \<inter> M)" and "card (cells sen \<inter> M) = 0"
    using assms by (simp_all add: sentence_ok_def)
  then show ?thesis by simp
qed

lemma sentence_ok_subtract:
  assumes a: "sentence_ok M a" and b: "sentence_ok M b" and sub: "cells b \<subseteq> cells a"
  shows "sentence_ok M \<lparr>cells = cells a - cells b, count = count a - count b\<rparr>"
proof -
  have fin: "finite (cells a \<inter> M)" "finite (cells b \<inter> M)"
    using a b by (simp_all add: sentence_ok_def)
  have split: "(cells a - cells b) \<inter> M = (cells a \<inter> M) - (cells b \<inter> M)" by blast
  have le: "cells b \<inter> M \<subseteq> cells a \<inter> M" using sub by blast
  have "card ((cells a \<inter> M) - (cells b \<inter> M)) = card (cells a \<inter> M) - card (cells b \<inter> M)"
    using fin(2) le by (rule card_Diff_subset)
  moreover have "card (cells b \<inter> M) \<le> card (cells a \<inter> M)"
    using fin(1) le by (rule card_mono)
  ultimately show ?thesis using a b split by (simp add: sentence_ok_def)
qed

lemma sound_ai_mark_mine: "c \<in> M \<Longrightarrow> sound M s \<Longrightarrow> sound M (ai_mark_mine c s)"
  by (simp add: sound_def sentence_ok_mark_mine)

lemma sound_ai_mark_safe: "c \<notin> M \<Longrightarrow> sound M s \<Longrightarrow> sound M (ai_mark_safe c s)"
  by (simp add: sound_def sentence_ok_mark_safe)

lemma sound_fold_ai_mark_mine: "set cs \<subseteq> M \<Longrightarrow> sound M s \<Longrightarrow> sound M (fold ai_mark_mine cs s)"
  by (induction cs arbitrary: s) (simp_all add: sound_ai_mark_mine)

lemma sound_fold_ai_mark_safe: "set cs \<inter> M = {} \<Longrightarrow> sound M s \<Longrightarrow> sound M (fold ai_mark_safe cs s)"
  by (induction cs arbitrary: s) (simp_all add: sound_ai_mark_safe)

lemma sound_knowledge_remove: "knowledge_remove r s = Inr s' \<Longrightarrow> sound M s \<Longrightarrow> sound M s'"
  by (auto simp: knowledge_remove_def sound_def split: option.splits)

lemma sound_finite: "sound M s \<Longrightarrow> finite (cells (heap s r))"
  by (simp add: sound_def sentence_ok_def)

lemma sound_resolve:
  assumes "resolve r s = Inr s'" and "sound M s"
  shows "sound M s'"
proof -
  have ok: "sentence_ok M (heap s r)" and fin: "finite (cells (heap s r))"
    using assms(2) by (simp_all add: sound_def sentence_ok_def)
  consider (empty) "card (cells (heap s r)) = 0"
    | (safe) "card (cells (heap s r)) \<noteq> 0" "count (heap s r) = 0"
    | (mine) "card (cells (heap s r)) \<noteq> 0" "count (heap s r) \<noteq> 0"
        "int (card (cells (heap s r))) = count (heap s r)"
    | (none) "card (cells (heap s r)) \<noteq> 0" "count (heap s r) \<noteq> 0"
        "int (card (cells (heap s r))) \<noteq> count (heap s r)"
    by blast
  then show ?thesis
  proof cases
    case empty
    then show ?thesis using assms by (auto simp: resolve_def dest: sound_knowledge_remove)
  next
    case safe
    have "set (set_iter (cells (heap s r))) \<inter> M = {}"
      using sentence_ok_all_safe [OF ok safe(2)] fin by simp
    then have "sound M (fold ai_mark_safe (set_iter (cells (heap s r))) s)"
      using assms(2) by (rule sound_fold_ai_mark_safe)
    then show ?thesis using assms(1) safe by (auto simp: resolve_def dest: sound_knowledge_remove)
  next
    case mine
    have "set (set_iter (cells (heap s r))) \<subseteq> M"
      using sentence_ok_all_mines [OF ok mine(3)] fin by simp
    then have "sound M (fold ai_mark_mine (set_iter (cells (heap s r))) s)"
      using assms(2) by (rule sound_fold_ai_mark_mine)
    then show ?thesis using assms(1) mine by (auto simp: resolve_def dest: sound_knowledge_remove)
  next
    case none
    then show ?thesis using assms by (simp add: resolve_def)
  qed
qed

lemma sound_subtract_sentence:
  "sound M s \<Longrightarrow> cells (heap s r2) \<subseteq> cells (heap s r) \<Longrightarrow> sound M (subtract_sentence r r2 s)"
  by (simp add: sound_def subtract_sentence_def update_sentence_def sentence_ok_subtract)

lemma sound_subset_step: "sound M s \<Longrightarrow> sound M (subset_step r r2 s)"
  by (simp add: subset_step_def Let_def sound_subtract_sentence psubset_imp_subset)

lemma sound_fold_subset_step: "sound M s \<Longrightarrow> sound M (fold (subset_step r) rs s)"
  by (induction rs arbitrary: s) (simp_all add: sound_subset_step)

lemma sound_check_knowledge:
  "check_knowledge r s = Inr s' \<Longrightarrow> sound M s \<Longrightarrow> sound M s'"
  by (auto simp: check_knowledge_def split: sum.splits
      intro: sound_fold_subset_step dest: sound_resolve)

lemma sound_check_all: "check_all i s = Inr s' \<Longrightarrow> sound M s \<Longrightarrow> sound M s'"
proof (induction i s rule: check_all.induct)
  case (1 i s)
  show ?case
  proof (cases "i < length (knowledge s)")
    case True
    with "1.prems"(1) obtain s1 where
      s1: "check_knowledge (knowledge s ! i) s = Inr s1" and rest: "check_all (Suc i) s1 = Inr s'"
      by (subst (asm) check_all.simps) (auto split: sum.splits)
    from s1 "1.prems"(2) have "sound M s1" by (rule sound_check_knowledge)
    with "1.IH" [OF True s1 rest] show ?thesis .
  next
    case False
    with "1.prems" show ?thesis by (subst (asm) check_all.simps) simp
  qed
qed

lemma sound_conclude_mines: "sound M s \<Longrightarrow> sound M (conclude_mines r s)"
proof (cases "known_mines (heap s r)")
  case None
  then show "sound M s \<Longrightarrow> ?thesis" by (simp add: conclude_mines_def)
next
  case (Some cs)
  assume s: "sound M s"
  from Some have cs: "cs = cells (heap s r)" and eq: "int (card (cells (heap s r))) = count (heap s r)"
    by (auto simp: known_mines_def split: if_splits)
  have "sentence_ok M (heap s r)" using s by (simp add: sound_def)
  from sentence_ok_all_mines [OF this eq] have "set (set_iter cs) \<subseteq> M"
    using sound_finite [OF s, of r] cs by simp
  then show ?thesis using s Some by (simp add: conclude_mines_def sound_fold_ai_mark_mine)
qed

lemma sound_conclude_safes: "sound M s \<Longrightarrow> sound M (conclude_safes r s)"
proof (cases "known_safes (heap s r)")
  case None
  then show "sound M s \<Longrightarrow> ?thesis" by (simp add: conclude_safes_def)
next
  case (Some cs)
  assume s: "sound M s"
  from Some have cs: "cs = cells (heap s r)" and eq: "count (heap s r) = 0"
    by (auto simp: known_safes_def split: if_splits)
  have "sentence_ok M (heap s r)" using s by (simp add: sound_def)
  from sentence_ok_all_safe [OF this eq] have "set (set_iter cs) \<inter> M = {}"
    using sound_finite [OF s, of r] cs by simp
  then show ?thesis using s Some by (simp add: conclude_safes_def sound_fold_ai_mark_safe)
qed

lemma sound_conclude: "sound M s \<Longrightarrow> sound M (conclude r s)"
  by (simp add: conclude_def sound_conclude_mines sound_conclude_safes)

lemma sound_fold_conclude: "sound M s \<Longrightarrow> sound M (fold conclude rs s)"
  by (induction rs arbitrary: s) (simp_all add: sound_conclude)

lemma sound_infer: "infer r s = Inr s' \<Longrightarrow> sound M s \<Longrightarrow> sound M s'"
  by (auto simp: infer_def split: sum.splits
      dest!: sound_check_knowledge [where M = M] sound_check_all [where M = M]
      intro: sound_fold_conclude)

subsection \<open>No exception in the inference of a turn\<close>

lemma remove_first_Some: "\<exists>x\<in>set xs. P x \<Longrightarrow> \<exists>ys. remove_first P xs = Some ys"
  by (induction xs) auto

lemma knowledge_remove_ok:
  "r \<in> set (knowledge s) \<Longrightarrow> \<exists>s'. knowledge_remove r s = Inr s'"
proof -
  assume "r \<in> set (knowledge s)"
  then have "\<exists>x\<in>set (knowledge s). sentence_eq (heap s x) (heap s r)"
    by (auto simp: sentence_eq_def)
  from remove_first_Some [OF this] show ?thesis
    by (auto simp: knowledge_remove_def)
qed

lemma resolve_ok: "r \<in> set (knowledge s) \<Longrightarrow> \<exists>s'. resolve r s = Inr s'"
  by (simp add: resolve_def knowledge_remove_ok)

lemma check_knowledge_ok: "r \<in> set (knowledge s) \<Longrightarrow> \<exists>s'. check_knowledge r s = Inr s'"
  using resolve_ok [of r s] by (auto simp: check_knowledge_def)

lemma check_all_ok: "\<exists>s'. check_all i s = Inr s'"
proof (induction i s rule: check_all.induct)
  case (1 i s)
  show ?case
  proof (cases "i < length (knowledge s)")
    case True
    then obtain s1 where s1: "check_knowledge (knowledge s ! i) s = Inr s1"
      using check_knowledge_ok [of "knowledge s ! i" s] by auto
    from "1.IH" [OF True s1] obtain s' where "check_all (Suc i) s1 = Inr s'" ..
    with True s1 show ?thesis by (subst check_all.simps) simp
  next
    case False
    then show ?thesis by (subst check_all.simps) simp
  qed
qed

lemma knowledge_conclude [simp]: "knowledge (conclude r s) = knowledge s"
  by (simp add: conclude_def conclude_mines_def conclude_safes_def split: option.splits)

lemma knowledge_fold_conclude [simp]: "knowledge (fold conclude rs s) = knowledge s"
  by (induction rs arbitrary: s) simp_all

lemma infer_ok: "r \<in> set (knowledge s) \<Longrightarrow> \<exists>s'. infer r s = Inr s'"
proof -
  assume "r \<in> set (knowledge s)"
  then obtain s1 where s1: "check_knowledge r (fold conclude (knowledge s) s) = Inr s1"
    using check_knowledge_ok [of r "fold conclude (knowledge s) s"] by auto
  obtain s2 where s2: "check_all 0 s1 = Inr s2" using check_all_ok by blast
  obtain s3 where "check_all 0 s2 = Inr s3" using check_all_ok by blast
  with s1 s2 show ?thesis by (simp add: infer_def)
qed

lemma insert_sentence_fields [simp]:
  "height (insert_sentence c n s) = height s"
  "width (insert_sentence c n s) = width s"
  "moves_made (insert_sentence c n s) = insert c (moves_made s)"
  "mines (insert_sentence c n s) = mines s"
  "safes (insert_sentence c n s) = insert c (safes s)"
  "knowledge (insert_sentence c n s) = knowledge s @ [next_ref s]"
  "next_ref (insert_sentence c n s) = Suc (next_ref s)"
  by (auto simp: insert_sentence_def Let_def)

lemma add_knowledge_ok: "\<exists>s'. add_knowledge c n s = Inr s'"
  by (simp add: add_knowledge_def infer_ok)

subsection \<open>The new sentence\<close>

lemma finite_neighbourhood [simp]: "finite (neighbourhood h w c)"
  by (simp add: neighbourhood_def)

lemma self_not_in_neighbourhood [simp]: "c \<notin> neighbourhood h w c"
  by (simp add: neighbourhood_def)

lemma fold_known_mines:
  assumes "distinct xs" and "finite (cells sen)"
  shows "fold (\<lambda>c' sen. if c' \<in> mi then mark_mine c' sen else sen) xs sen =
         \<lparr>cells = cells sen - (set xs \<inter> mi),
          count = count sen - int (card (cells sen \<inter> set xs \<inter> mi))\<rparr>"
  using assms
proof (induction xs arbitrary: sen)
  case Nil
  show ?case by simp
next
  case (Cons x xs)
  show ?case
  proof (cases "x \<in> mi \<and> x \<in> cells sen")
    case True
    let ?sen = "mark_mine x sen"
    have sen': "cells ?sen = cells sen - {x}" "count ?sen = count sen - 1"
      using True by (simp_all add: mark_mine_def)
    have fin: "finite (cells sen \<inter> set xs \<inter> mi)" using Cons.prems by simp
    have "cells sen \<inter> set (x # xs) \<inter> mi = insert x (cells sen \<inter> set xs \<inter> mi)"
      using True by auto
    moreover have "x \<notin> cells sen \<inter> set xs \<inter> mi" using Cons.prems by simp
    ultimately have card: "card (cells sen \<inter> set (x # xs) \<inter> mi) = Suc (card (cells sen \<inter> set xs \<inter> mi))"
      using fin by simp
    have "(cells sen - {x}) \<inter> set xs \<inter> mi = cells sen \<inter> set xs \<inter> mi"
      using Cons.prems by auto
    moreover have "cells sen - {x} - (set xs \<inter> mi) = cells sen - (set (x # xs) \<inter> mi)"
      using True by auto
    ultimately show ?thesis
      using True Cons.IH [of ?sen] Cons.prems card by (simp add: sen')
  next
    case False
    have eq: "(if x \<in> mi then mark_mine x sen else sen) = sen"
      using False by (auto simp: mark_mine_def)
    have "cells sen \<inter> set (x # xs) \<inter> mi = cells sen \<inter> set xs \<inter> mi"
      and "cells sen - (set (x # xs) \<inter> mi) = cells sen - (set xs \<inter> mi)"
      using False by auto
    then show ?thesis using Cons.IH [of sen] Cons.prems by (simp add: eq)
  qed
qed

lemma new_sentence_eq:
  "new_sentence c n s =
     \<lparr>cells = neighbourhood (height s) (width s) c - safes s - mines s,
      count = n - int (card ((neighbourhood (height s) (width s) c - safes s) \<inter> mines s))\<rparr>"
proof -
  let ?cs = "neighbourhood (height s) (width s) c - safes s"
  have fin: "finite ?cs" by simp
  have "?cs \<inter> set (set_iter ?cs) \<inter> mines s = ?cs \<inter> mines s"
    and "?cs - (set (set_iter ?cs) \<inter> mines s) = ?cs - mines s"
    using fin by auto
  then show ?thesis
    unfolding new_sentence_def Let_def
    by (subst fold_known_mines) (simp_all del: set_iter_set)
qed

lemma heap_insert_sentence:
  "heap (insert_sentence c n s) (next_ref s) =
     \<lparr>cells = neighbourhood (height s) (width s) c - safes s - mines s,
      count = n - int (card ((neighbourhood (height s) (width s) c - safes s) \<inter> mines s))\<rparr>"
proof -
  have "neighbourhood (height s) (width s) c - insert c (safes s)
        = neighbourhood (height s) (width s) c - safes s"
    by auto
  then show ?thesis
    by (auto simp: insert_sentence_def Let_def new_sentence_eq)
qed

subsection \<open>The board and its mine set\<close>

definition board_ok :: "minesweeper \<Rightarrow> bool" where
  "board_ok g \<longleftrightarrow>
     length (board g) = nat (ms_height g) \<and>
     (\<forall>i < nat (ms_height g). length (board g ! i) = nat (ms_width g)) \<and>
     ms_mines g = {d. in_bounds (ms_height g) (ms_width g) d \<and> board g ! nat (fst d) ! nat (snd d)}"

lemma in_bounds_nat:
  "in_bounds h w d \<Longrightarrow> nat (fst d) < nat h \<and> nat (snd d) < nat w"
  by (auto simp: in_bounds_def)

lemma finite_in_bounds: "finite {d. in_bounds h w d}"
proof -
  have "{d. in_bounds h w d} \<subseteq> {0..<h} \<times> {0..<w}"
    by (auto simp: in_bounds_def)
  then show ?thesis by (rule finite_subset) simp
qed

lemma board_ok_is_mine:
  assumes "board_ok g" and "in_bounds (ms_height g) (ms_width g) d"
  shows "is_mine g d = Inr (d \<in> ms_mines g)"
proof -
  have i: "0 \<le> fst d" "fst d < ms_height g" and j: "0 \<le> snd d" "snd d < ms_width g"
    using assms(2) by (simp_all add: in_bounds_def)
  have len: "int (length (board g)) = ms_height g"
    using assms(1) i by (simp add: board_ok_def)
  have "nat (fst d) < nat (ms_height g)" using i by simp
  then have row: "int (length (board g ! nat (fst d))) = ms_width g"
    using assms(1) j by (simp add: board_ok_def)
  have "d \<in> ms_mines g \<longleftrightarrow> board g ! nat (fst d) ! nat (snd d)"
    using assms by (simp add: board_ok_def)
  then show ?thesis
    using i j len row by (simp add: is_mine_def py_index_def Let_def)
qed

lemma set_board_length [simp]: "length (set_board d b) = length b"
  by (simp add: set_board_def)

lemma set_board_row_length:
  "i < length b \<Longrightarrow> length (set_board d b ! i) = length (b ! i)"
  by (cases "i = nat (fst d)") (simp_all add: set_board_def)

lemma set_board_nth:
  assumes "i < length b" and "j < length (b ! i)"
  shows "set_board d b ! i ! j = ((i = nat (fst d) \<and> j = nat (snd d)) \<or> b ! i ! j)"
proof (cases "i = nat (fst d)")
  case True
  then show ?thesis
    using assms by (cases "j = nat (snd d)") (simp_all add: set_board_def)
next
  case False
  then show ?thesis by (simp add: set_board_def)
qed

lemma board_ok_place:
  assumes ok: "board_ok g" and d: "in_bounds (ms_height g) (ms_width g) d"
  shows "board_ok (g\<lparr>ms_mines := insert d (ms_mines g), board := set_board d (board g)\<rparr>)"
proof -
  let ?h = "ms_height g" and ?w = "ms_width g"
  have len: "length (board g) = nat ?h" and rows: "\<And>i. i < nat ?h \<Longrightarrow> length (board g ! i) = nat ?w"
    using ok by (simp_all add: board_ok_def)
  have nth: "set_board d (board g) ! nat (fst e) ! nat (snd e) = (e = d \<or> board g ! nat (fst e) ! nat (snd e))"
    if e: "in_bounds ?h ?w e" for e
  proof -
    have "nat (fst e) < length (board g)" "nat (snd e) < length (board g ! nat (fst e))"
      using in_bounds_nat [OF e] len rows by simp_all
    from set_board_nth [OF this]
    have "set_board d (board g) ! nat (fst e) ! nat (snd e) =
          ((nat (fst e) = nat (fst d) \<and> nat (snd e) = nat (snd d)) \<or> board g ! nat (fst e) ! nat (snd e))" .
    moreover have "(nat (fst e) = nat (fst d) \<and> nat (snd e) = nat (snd d)) \<longleftrightarrow> e = d"
      using e d by (auto simp: in_bounds_def prod_eq_iff)
    ultimately show ?thesis by simp
  qed
  have "insert d (ms_mines g) = {e. in_bounds ?h ?w e \<and> set_board d (board g) ! nat (fst e) ! nat (snd e)}"
    using ok d nth by (auto simp: board_ok_def)
  then show ?thesis
    using len rows by (simp add: board_ok_def set_board_row_length)
qed

lemma place_mines_ok:
  assumes "place_mines n ds g = Some (Inr g')" and "board_ok g"
  shows "board_ok g' \<and> int (card (ms_mines g')) = n \<and>
         ms_height g' = ms_height g \<and> ms_width g' = ms_width g"
  using assms
proof (induction n ds g rule: place_mines.induct)
  case (1 n ds g)
  show ?case
  proof (cases "int (card (ms_mines g)) = n")
    case True
    with "1.prems" show ?thesis by (subst (asm) place_mines.simps) simp
  next
    case False
    with "1.prems"(1) have dims: "\<not> (ms_height g \<le> 0 \<or> ms_width g \<le> 0)"
      by (subst (asm) place_mines.simps) (auto split: if_splits)
    from False dims "1.prems"(1) obtain d ds' where ds: "ds = d # ds'"
      by (subst (asm) place_mines.simps) (auto split: list.splits)
    from False dims ds "1.prems"(1) have inb: "in_bounds (ms_height g) (ms_width g) d"
      by (subst (asm) place_mines.simps) (auto split: if_splits)
    show ?thesis
    proof (cases "board g ! nat (fst d) ! nat (snd d)")
      case True
      with False dims ds inb "1.prems"(1) have "place_mines n ds' g = Some (Inr g')"
        by (subst (asm) place_mines.simps) simp
      from "1.IH"(2) [OF False dims ds _ _ this "1.prems"(2)] inb True show ?thesis by simp
    next
      case free: False
      let ?g = "g\<lparr>ms_mines := insert d (ms_mines g), board := set_board d (board g)\<rparr>"
      from free False dims ds inb "1.prems"(1) have "place_mines n ds' ?g = Some (Inr g')"
        by (subst (asm) place_mines.simps) simp
      from "1.IH"(1) [OF False dims ds _ _ this board_ok_place [OF "1.prems"(2) inb]] inb free
      show ?thesis by simp
    qed
  qed
qed

lemma board_ok_start:
  "board_ok \<lparr>ms_height = h, ms_width = w, ms_mines = {},
     board = replicate (nat h) (replicate (nat w) False), mines_found = {}\<rparr>"
  by (auto simp: board_ok_def dest: in_bounds_nat)

lemma minesweeper_init_ok:
  assumes "minesweeper_init h w n ds = Some (Inr g)"
  shows "board_ok g \<and> int (card (ms_mines g)) = n \<and> ms_height g = h \<and> ms_width g = w"
  using place_mines_ok [OF assms [unfolded minesweeper_init_def] board_ok_start] by simp

lemma ms_after_same [simp]: "ms_after call g = g"
  by (cases call) simp_all

lemma fold_ms_after [simp]: "fold ms_after calls g = g"
  by (induction calls) simp_all

subsection \<open>The count the board gives for a cell\<close>

lemma distinct_around [simp]: "distinct (around c)"
  by (cases c) (simp add: around_def)

lemma nearby_mines_fold:
  assumes ok: "board_ok g" and "distinct ds"
  shows "fold (\<lambda>d acc.
             case acc of
               Inl e \<Rightarrow> Inl e
             | Inr k \<Rightarrow>
                 if d = c then Inr k
                 else if in_bounds (ms_height g) (ms_width g) d
                 then (case is_mine g d of
                         Inl e \<Rightarrow> Inl e
                       | Inr b \<Rightarrow> Inr (if b then k + 1 else k))
                 else Inr k) ds (Inr k)
         = Inr (k + int (card {d \<in> set ds. d \<noteq> c \<and> in_bounds (ms_height g) (ms_width g) d
                                   \<and> d \<in> ms_mines g}))"
  using assms(2)
proof (induction ds arbitrary: k)
  case Nil
  show ?case by simp
next
  case (Cons d ds)
  let ?P = "\<lambda>d. d \<noteq> c \<and> in_bounds (ms_height g) (ms_width g) d \<and> d \<in> ms_mines g"
  have fin: "finite {e \<in> set ds. ?P e}" by simp
  have notin: "d \<notin> {e \<in> set ds. ?P e}" using Cons.prems by simp
  show ?case
  proof (cases "?P d")
    case True
    then have "{e \<in> set (d # ds). ?P e} = insert d {e \<in> set ds. ?P e}" by auto
    then have "card {e \<in> set (d # ds). ?P e} = Suc (card {e \<in> set ds. ?P e})"
      using fin notin by simp
    then show ?thesis
      using True Cons.IH [of "k + 1"] Cons.prems board_ok_is_mine [OF ok, of d] by simp
  next
    case False
    then have "{e \<in> set (d # ds). ?P e} = {e \<in> set ds. ?P e}" by auto
    then show ?thesis
      using False Cons.IH [of k] Cons.prems board_ok_is_mine [OF ok, of d] by auto
  qed
qed

lemma nearby_mines_card:
  assumes "board_ok g"
  shows "nearby_mines g c =
         Inr (int (card (neighbourhood (ms_height g) (ms_width g) c \<inter> ms_mines g)))"
proof -
  have "neighbourhood (ms_height g) (ms_width g) c \<inter> ms_mines g =
        {d \<in> set (around c). d \<noteq> c \<and> in_bounds (ms_height g) (ms_width g) d \<and> d \<in> ms_mines g}"
    by (auto simp: neighbourhood_def)
  then show ?thesis
    unfolding nearby_mines_def
    by (subst nearby_mines_fold [OF assms distinct_around]) simp
qed

subsection \<open>The knowledge base stays true of the board\<close>

lemma sound_init: "sound M (ai_init h w)"
  by (simp add: sound_def ai_init_def sentence_ok_def)

lemma sound_insert_sentence:
  assumes s: "sound M s" and c: "c \<notin> M"
    and n: "n = int (card (neighbourhood (height s) (width s) c \<inter> M))"
  shows "sound M (insert_sentence c n s)"
proof -
  let ?nb = "neighbourhood (height s) (width s) c"
  let ?cs = "?nb - safes s"
  have mines: "mines s \<subseteq> M" and safes: "safes s \<inter> M = {}"
    and heap: "\<And>r. sentence_ok M (heap s r)"
    using s by (simp_all add: sound_def)
  have "?cs \<inter> M = ?nb \<inter> M" using safes by auto
  then have a: "sentence_ok M \<lparr>cells = ?cs, count = n\<rparr>"
    using n by (simp add: sentence_ok_def)
  have m: "(?cs \<inter> mines s) \<inter> M = ?cs \<inter> mines s" using mines by auto
  have b: "sentence_ok M \<lparr>cells = ?cs \<inter> mines s, count = int (card (?cs \<inter> mines s))\<rparr>"
    by (simp add: sentence_ok_def m)
  have "sentence_ok M \<lparr>cells = cells \<lparr>cells = ?cs, count = n\<rparr> - cells \<lparr>cells = ?cs \<inter> mines s, count = int (card (?cs \<inter> mines s))\<rparr>,
          count = count \<lparr>cells = ?cs, count = n\<rparr> - count \<lparr>cells = ?cs \<inter> mines s, count = int (card (?cs \<inter> mines s))\<rparr>\<rparr>"
    using a b by (rule sentence_ok_subtract) simp
  moreover have "?cs - ?cs \<inter> mines s = ?cs - mines s" by auto
  ultimately have new: "sentence_ok M (heap (insert_sentence c n s) (next_ref s))"
    by (simp add: heap_insert_sentence)
  have other: "sentence_ok M (heap (insert_sentence c n s) r)" if "r \<noteq> next_ref s" for r
    using that heap c by (auto simp: insert_sentence_def Let_def sentence_ok_mark_safe)
  have "sentence_ok M (heap (insert_sentence c n s) r)" for r
    using new other by (cases "r = next_ref s") auto
  then show ?thesis
    using mines safes c by (simp add: sound_def)
qed

lemma dims_knowledge_remove:
  "knowledge_remove r s = Inr s' \<Longrightarrow> height s' = height s \<and> width s' = width s"
  by (auto simp: knowledge_remove_def split: option.splits)

lemma dims_fold_ai_mark_mine [simp]:
  "height (fold ai_mark_mine cs s) = height s" "width (fold ai_mark_mine cs s) = width s"
  by (induction cs arbitrary: s) simp_all

lemma dims_fold_ai_mark_safe [simp]:
  "height (fold ai_mark_safe cs s) = height s" "width (fold ai_mark_safe cs s) = width s"
  by (induction cs arbitrary: s) simp_all

lemma dims_resolve:
  "resolve r s = Inr s' \<Longrightarrow> height s' = height s \<and> width s' = width s"
  by (auto simp: resolve_def split: if_splits dest!: dims_knowledge_remove)

lemma dims_subset_step [simp]:
  "height (subset_step r r2 s) = height s" "width (subset_step r r2 s) = width s"
  by (simp_all add: subset_step_def subtract_sentence_def update_sentence_def Let_def)

lemma dims_fold_subset_step [simp]:
  "height (fold (subset_step r) rs s) = height s" "width (fold (subset_step r) rs s) = width s"
  by (induction rs arbitrary: s) simp_all

lemma dims_check_knowledge:
  "check_knowledge r s = Inr s' \<Longrightarrow> height s' = height s \<and> width s' = width s"
  by (auto simp: check_knowledge_def split: sum.splits dest!: dims_resolve)

lemma dims_check_all:
  "check_all i s = Inr s' \<Longrightarrow> height s' = height s \<and> width s' = width s"
proof (induction i s rule: check_all.induct)
  case (1 i s)
  show ?case
  proof (cases "i < length (knowledge s)")
    case True
    with "1.prems"(1) obtain s1 where
      s1: "check_knowledge (knowledge s ! i) s = Inr s1" and rest: "check_all (Suc i) s1 = Inr s'"
      by (subst (asm) check_all.simps) (auto split: sum.splits)
    from "1.IH" [OF True s1 rest] dims_check_knowledge [OF s1] show ?thesis by simp
  next
    case False
    with "1.prems" show ?thesis by (subst (asm) check_all.simps) simp
  qed
qed

lemma dims_conclude [simp]:
  "height (conclude r s) = height s" "width (conclude r s) = width s"
  by (simp_all add: conclude_def conclude_mines_def conclude_safes_def split: option.splits)

lemma dims_fold_conclude [simp]:
  "height (fold conclude rs s) = height s" "width (fold conclude rs s) = width s"
  by (induction rs arbitrary: s) simp_all

lemma dims_infer:
  "infer r s = Inr s' \<Longrightarrow> height s' = height s \<and> width s' = width s"
  by (auto simp: infer_def split: sum.splits
      dest!: dims_check_knowledge dims_check_all)

lemma dims_add_knowledge:
  "add_knowledge c n s = Inr s' \<Longrightarrow> height s' = height s \<and> width s' = width s"
  by (auto simp: add_knowledge_def dest!: dims_infer)

lemma sound_add_knowledge:
  assumes "add_knowledge c n s = Inr s'" and "sound M s" and "c \<notin> M"
    and "n = int (card (neighbourhood (height s) (width s) c \<inter> M))"
  shows "sound M s'"
  using assms(1) sound_insert_sentence [OF assms(2-4)]
  by (auto simp: add_knowledge_def dest: sound_infer)

text \<open>The state that a run on a fixed board keeps: true of the board, and of its size.\<close>

definition fits :: "minesweeper \<Rightarrow> ai \<Rightarrow> bool" where
  "fits g s \<longleftrightarrow> sound (ms_mines g) s \<and> height s = ms_height g \<and> width s = ms_width g"

lemma fits_apply_op:
  assumes g: "board_ok g" and op: "consistent g op" and s: "fits g s"
  shows "\<exists>s'. apply_op g op s = Inr s' \<and> fits g s'"
proof (cases op)
  case (Add_knowledge c)
  let ?n = "int (card (neighbourhood (ms_height g) (ms_width g) c \<inter> ms_mines g))"
  obtain s' where s': "add_knowledge c ?n s = Inr s'" using add_knowledge_ok by blast
  have "sound (ms_mines g) s'"
    using s' s op Add_knowledge by (intro sound_add_knowledge [OF s']) (simp_all add: fits_def)
  then show ?thesis
    using s s' dims_add_knowledge [OF s'] Add_knowledge nearby_mines_card [OF g]
    by (simp add: fits_def)
next
  case (Mark_mine c)
  then show ?thesis using s op by (simp add: fits_def sound_ai_mark_mine)
next
  case (Mark_safe c)
  then show ?thesis using s op by (simp add: fits_def sound_ai_mark_safe)
next
  case (Check_knowledge i)
  show ?thesis
  proof (cases "i < length (knowledge s)")
    case True
    then obtain s' where s': "check_knowledge (knowledge s ! i) s = Inr s'"
      using check_knowledge_ok [of "knowledge s ! i" s] by auto
    then show ?thesis
      using True s Check_knowledge dims_check_knowledge [OF s'] sound_check_knowledge [OF s']
      by (simp add: fits_def)
  next
    case False
    then show ?thesis using s Check_knowledge by simp
  qed
qed

lemma fits_run:
  assumes "board_ok g" and "\<forall>op\<in>set ops. consistent g op" and "fits g s"
  shows "\<exists>s'. run g ops s = Inr s' \<and> fits g s'"
  using assms(2,3)
proof (induction ops arbitrary: s)
  case Nil
  then show ?case by simp
next
  case (Cons op ops)
  from fits_apply_op [OF assms(1) _ Cons.prems(2), of op] Cons.prems(1)
  obtain s1 where s1: "apply_op g op s = Inr s1" "fits g s1" by auto
  from Cons.IH [OF _ s1(2)] Cons.prems(1) obtain s' where "run g ops s1 = Inr s'" "fits g s'"
    by auto
  with s1 show ?case by simp
qed

lemma fits_init: "fits g (ai_init (ms_height g) (ms_width g))"
  by (simp add: fits_def sound_init) (simp add: ai_init_def)

lemma sound_disjoint: "sound M s \<Longrightarrow> safes s \<inter> mines s = {}"
  by (auto simp: sound_def)

lemma sound_count_bounds:
  assumes "sound M s"
  shows "0 \<le> count (heap s r) \<and> count (heap s r) \<le> int (card (cells (heap s r)))"
proof -
  have "finite (cells (heap s r))" and "count (heap s r) = int (card (cells (heap s r) \<inter> M))"
    using assms by (simp_all add: sound_def sentence_ok_def)
  then show ?thesis by (simp add: card_mono)
qed

subsection \<open>The example board\<close>

lemma corner_board_init:
  "minesweeper_init 3 3 4 [(0, 0), (0, 2), (2, 0), (2, 2)] = Some (Inr corner_board)"
  by (simp add: minesweeper_init_def place_mines.simps in_bounds_def set_board_def
      corner_board_def numeral_3_eq_3 insert_commute)

lemma neighbourhood_centre:
  "neighbourhood 3 3 (1, 1) = {(0, 0), (0, 1), (0, 2), (1, 0), (1, 2), (2, 0), (2, 1), (2, 2)}"
  by (auto simp: neighbourhood_def around_def in_bounds_def)

subsection \<open>Two plays\<close>

text \<open>The 1 by 3 board with its mine at \<open>(0, 2)\<close>, and the sentences of the knowledge list.\<close>

definition line_board :: minesweeper where
  "line_board =
     \<lparr>ms_height = 1, ms_width = 3, ms_mines = {(0, 2)},
      board = [[False, False, True]], mines_found = {}\<rparr>"

lemma line_board_init: "minesweeper_init 1 3 1 [(0, 2)] = Some (Inr line_board)"
  by (simp add: minesweeper_init_def place_mines.simps in_bounds_def set_board_def
      line_board_def numeral_3_eq_3)

definition statements :: "ai \<Rightarrow> (cell set \<times> int) list" where
  "statements s = map (\<lambda>r. (cells (heap s r), count (heap s r))) (knowledge s)"

lemma corner_play:
  "map_sum id (\<lambda>s. (statements s, make_safe_move s, fst (make_random_move s [])))
     (turns corner_board [(0, 1), (1, 0), (1, 2), (2, 1), (1, 1)] (ai_init 3 3)) =
   Inr ([({}, 0)], None, Inl ZeroDivisionError)"
  by code_simp

text \<open>
  \<^verbatim>\<open>check_knowledge\<close> called on a sentence that is not in the knowledge list, here an
  empty sentence on a new knowledge base, raises the \<^verbatim>\<open>ValueError\<close> of \<^verbatim>\<open>list.remove\<close>.
\<close>

lemma check_knowledge_absent: "check_knowledge 0 (ai_init 3 3) = Inl ValueError"
  by (simp add: check_knowledge_def resolve_def knowledge_remove_def ai_init_def)

lemma line_play:
  "map_sum id (\<lambda>s1. (statements s1, make_random_move s1 [],
       map_sum id (\<lambda>s2. (statements s2, first_free s2, (0, 0) \<in> moves_made s2, (0, 2) \<in> mines s2,
           make_random_move s2 (snd (make_random_move s1 []))))
         (turns line_board [(0, 0)] s1)))
     (turns line_board [(0, 1)] (ai_init 1 3)) =
   Inr ([({(0, 0), (0, 2)}, 1)], (Inr (Some (0, 0)), [((0, 0), 1 / 2), ((0, 2), 1 / 2)]),
        Inr ([], None, True, True, (Inr (Some (0, 0)), [((0, 0), 1 / 2), ((0, 2), 1 / 2)])))"
  by code_simp

subsection \<open>The score table\<close>

text \<open>
  What one call of \<^verbatim>\<open>make_random_move\<close> adds to the score of a cell: the sentences are
  scored in list order up to the first one without cells, where the division raises;
  each scored sentence that contains the cell adds its \<open>count / |cells|\<close>.
\<close>

definition ratio :: "sentence \<Rightarrow> rat" where
  "ratio sen = of_int (count sen) / of_nat (card (cells sen))"

definition scored :: "(ref \<Rightarrow> sentence) \<Rightarrow> ref list \<Rightarrow> ref list" where
  "scored h rs = takeWhile (\<lambda>r. card (cells (h r)) \<noteq> 0) rs"

definition gain :: "(ref \<Rightarrow> sentence) \<Rightarrow> ref list \<Rightarrow> cell \<Rightarrow> rat" where
  "gain h rs k = sum_list (map (\<lambda>r. if k \<in> cells (h r) then ratio (h r) else 0) (scored h rs))"

definition score_of :: "score_table \<Rightarrow> cell \<Rightarrow> rat" where
  "score_of tbl k = (case map_of tbl k of None \<Rightarrow> 0 | Some v \<Rightarrow> v)"

text \<open>A sequence of calls of \<^verbatim>\<open>make_random_move\<close>, by any instances in any states.\<close>

fun random_moves :: "ai list \<Rightarrow> score_table \<Rightarrow> score_table" where
  "random_moves [] tbl = tbl"
| "random_moves (s # ss) tbl = random_moves ss (snd (make_random_move s tbl))"

lemma map_of_bump:
  "map_of (map (\<lambda>(k, v). if k = c then (k, v + p) else (k, v)) tbl) k =
     (if k = c then map_option (\<lambda>v. v + p) (map_of tbl c) else map_of tbl k)"
  by (induction tbl) auto

lemma map_of_add_score:
  "map_of (add_score p c tbl) k =
     (if k = c then Some (score_of tbl c + p) else map_of tbl k)"
proof (cases "c \<in> fst ` set tbl")
  case True
  then obtain v where "map_of tbl c = Some v"
    by (metis domD dom_map_of_conv_image_fst)
  with True show ?thesis
    by (simp add: add_score_def map_of_bump score_of_def)
next
  case False
  then have "map_of tbl c = None" by (simp add: map_of_eq_None_iff)
  with False show ?thesis
    by (auto simp: add_score_def score_of_def map_add_def split: option.splits)
qed

lemma map_of_fold_add_score:
  "distinct cs \<Longrightarrow>
   map_of (fold (add_score p) cs tbl) k =
     (if k \<in> set cs then Some (score_of tbl k + p) else map_of tbl k)"
proof (induction cs arbitrary: tbl)
  case Nil
  show ?case by simp
next
  case (Cons c cs)
  have "score_of (add_score p c tbl) k = score_of tbl k" if "k \<noteq> c"
    using that by (simp add: score_of_def map_of_add_score)
  then show ?case
    using Cons by (auto simp: map_of_add_score)
qed

lemma scored_Nil [simp]: "scored h [] = []"
  by (simp add: scored_def)

lemma scored_Cons:
  "scored h (r # rs) = (if card (cells (h r)) = 0 then [] else r # scored h rs)"
  by (simp add: scored_def)

lemma map_of_score_sentences:
  "map_of (snd (score_sentences h rs tbl)) k =
     (if k \<in> dom (map_of tbl) \<or> (\<exists>r\<in>set (scored h rs). k \<in> cells (h r))
      then Some (score_of tbl k + gain h rs k) else None)"
proof (induction rs arbitrary: tbl)
  case Nil
  show ?case by (auto simp: scored_def gain_def score_of_def)
next
  case (Cons r rs)
  show ?case
  proof (cases "card (cells (h r)) = 0")
    case True
    then show ?thesis by (auto simp: scored_Cons gain_def score_of_def)
  next
    case False
    then have fin: "finite (cells (h r))" by (simp add: card_eq_0_iff)
    let ?p = "of_int (count (h r)) / of_nat (card (cells (h r)))"
    let ?tbl = "fold (add_score ?p) (set_iter (cells (h r))) tbl"
    have tbl: "map_of ?tbl k = (if k \<in> cells (h r) then Some (score_of tbl k + ?p) else map_of tbl k)"
      using fin by (simp add: map_of_fold_add_score)
    have g: "gain h (r # rs) k = (if k \<in> cells (h r) then ?p else 0) + gain h rs k"
      using False by (simp add: gain_def scored_Cons ratio_def)
    show ?thesis
      using False Cons.IH [of ?tbl] tbl g
      by (auto simp: scored_Cons score_of_def dom_def split: option.splits)
  qed
qed

lemma fst_score_sentences:
  "fst (score_sentences h rs tbl) = (if scored h rs = rs then None else Some ZeroDivisionError)"
  by (induction rs arbitrary: tbl) (simp_all add: scored_Cons)

lemma snd_make_random_move:
  "snd (make_random_move s tbl) = snd (score_sentences (heap s) (knowledge s) tbl)"
  by (simp add: make_random_move_def split: prod.splits option.splits)

subsection \<open>The score table on floats\<close>

text \<open>
  The table after a sequence of calls of \<^verbatim>\<open>make_random_move\<close>, by any instances in any
  states, for any arithmetic: a call leaves the table as its scoring loop leaves it,
  whether it returns or raises. \<open>contributions\<close> lists what one call adds to the score of
  a cell: the quotient of each sentence that holds the cell, in list order, up to the
  first sentence whose division raises. \<open>accumulate\<close> adds them to a score one by one, in
  that order, as \<^verbatim>\<open>+=\<close> does.
\<close>

fun score_calls ::
  "(int \<Rightarrow> nat \<Rightarrow> error + 'v) \<Rightarrow> ('v \<Rightarrow> 'v \<Rightarrow> 'v) \<Rightarrow> ai list \<Rightarrow> (cell \<times> 'v) list \<Rightarrow> (cell \<times> 'v) list" where
  "score_calls fdiv fadd [] tbl = tbl"
| "score_calls fdiv fadd (s # ss) tbl =
     score_calls fdiv fadd ss (snd (score_sentences_with fdiv fadd (heap s) (knowledge s) tbl))"

fun contributions :: "(int \<Rightarrow> nat \<Rightarrow> error + 'v) \<Rightarrow> (ref \<Rightarrow> sentence) \<Rightarrow> ref list \<Rightarrow> cell \<Rightarrow> 'v list" where
  "contributions fdiv h [] k = []"
| "contributions fdiv h (r # rs) k =
     (if card (cells (h r)) = 0 then []
      else case fdiv (count (h r)) (card (cells (h r))) of
             Inl e \<Rightarrow> []
           | Inr p \<Rightarrow> (if k \<in> cells (h r) then p # contributions fdiv h rs k
                       else contributions fdiv h rs k))"

definition all_contributions :: "(int \<Rightarrow> nat \<Rightarrow> error + 'v) \<Rightarrow> ai list \<Rightarrow> cell \<Rightarrow> 'v list" where
  "all_contributions fdiv ss k = concat (map (\<lambda>s. contributions fdiv (heap s) (knowledge s) k) ss)"

definition accumulate :: "('v \<Rightarrow> 'v \<Rightarrow> 'v) \<Rightarrow> 'v \<Rightarrow> 'v list \<Rightarrow> 'v" where
  "accumulate fadd v ps = fold (\<lambda>p v. fadd v p) ps v"

lemma accumulate_simps [simp]:
  "accumulate fadd v [] = v"
  "accumulate fadd v (p # ps) = accumulate fadd (fadd v p) ps"
  "accumulate fadd v (ps @ qs) = accumulate fadd (accumulate fadd v ps) qs"
  by (simp_all add: accumulate_def)

lemma all_contributions_simps [simp]:
  "all_contributions fdiv [] k = []"
  "all_contributions fdiv (s # ss) k =
     contributions fdiv (heap s) (knowledge s) k @ all_contributions fdiv ss k"
  by (simp_all add: all_contributions_def)

lemma map_of_bump_with:
  "map_of (map (\<lambda>(k, v). if k = c then (k, fadd v p) else (k, v)) tbl) k =
     (if k = c then map_option (\<lambda>v. fadd v p) (map_of tbl c) else map_of tbl k)"
  by (induction tbl) auto

lemma map_of_add_score_with:
  "map_of (add_score_with fadd p c tbl) k =
     (if k = c then Some (case map_of tbl c of None \<Rightarrow> p | Some v \<Rightarrow> fadd v p)
      else map_of tbl k)"
proof (cases "c \<in> fst ` set tbl")
  case True
  then obtain v where "map_of tbl c = Some v"
    by (metis domD dom_map_of_conv_image_fst)
  with True show ?thesis
    by (simp add: add_score_with_def map_of_bump_with)
next
  case False
  then have "map_of tbl c = None" by (simp add: map_of_eq_None_iff)
  with False show ?thesis
    by (auto simp: add_score_with_def map_add_def split: option.splits)
qed

lemma map_of_fold_add_score_with:
  "distinct cs \<Longrightarrow>
   map_of (fold (add_score_with fadd p) cs tbl) k =
     (if k \<in> set cs then Some (case map_of tbl k of None \<Rightarrow> p | Some v \<Rightarrow> fadd v p)
      else map_of tbl k)"
proof (induction cs arbitrary: tbl)
  case Nil
  show ?case by simp
next
  case (Cons c cs)
  then show ?case by (auto simp: map_of_add_score_with)
qed

lemma map_of_score_sentences_with:
  "map_of tbl k = Some v \<Longrightarrow>
   map_of (snd (score_sentences_with fdiv fadd h rs tbl)) k =
     Some (accumulate fadd v (contributions fdiv h rs k))"
proof (induction rs arbitrary: tbl v)
  case Nil
  then show ?case by simp
next
  case (Cons r rs)
  show ?case
  proof (cases "card (cells (h r)) = 0")
    case True
    with Cons.prems show ?thesis by simp
  next
    case False
    then have fin: "finite (cells (h r))" by (simp add: card_eq_0_iff)
    show ?thesis
    proof (cases "fdiv (count (h r)) (card (cells (h r)))")
      case (Inl e)
      with False Cons.prems show ?thesis by simp
    next
      case (Inr p)
      let ?tbl = "fold (add_score_with fadd p) (set_iter (cells (h r))) tbl"
      have tbl: "map_of ?tbl k = Some (if k \<in> cells (h r) then fadd v p else v)"
        using fin Cons.prems by (simp add: map_of_fold_add_score_with set_iter_def)
      from Cons.IH [OF tbl] False Inr show ?thesis by simp
    qed
  qed
qed

lemma map_of_score_calls:
  "map_of tbl k = Some v \<Longrightarrow>
   map_of (score_calls fdiv fadd ss tbl) k = Some (accumulate fadd v (all_contributions fdiv ss k))"
proof (induction ss arbitrary: tbl v)
  case Nil
  then show ?case by simp
next
  case (Cons s ss)
  from Cons.IH [OF map_of_score_sentences_with [OF Cons.prems]] show ?case by simp
qed

lemma keys_score_calls: "fst ` set tbl \<subseteq> fst ` set (score_calls fdiv fadd ss tbl)"
proof
  fix k assume "k \<in> fst ` set tbl"
  then obtain v where "map_of tbl k = Some v"
    by (metis domD dom_map_of_conv_image_fst)
  from map_of_score_calls [OF this] show "k \<in> fst ` set (score_calls fdiv fadd ss tbl)"
    by (metis domI dom_map_of_conv_image_fst)
qed

lemma add_score_exact: "add_score p = add_score_with (+) p"
  by (simp add: fun_eq_iff add_score_def add_score_with_def)

lemma score_sentences_exact:
  "score_sentences h rs tbl = score_sentences_with exact_quot (+) h rs tbl"
  by (induction rs arbitrary: tbl) (simp_all add: exact_quot_def add_score_exact)

lemma random_moves_exact: "random_moves ss tbl = score_calls exact_quot (+) ss tbl"
  by (induction ss arbitrary: tbl) (simp_all add: snd_make_random_move score_sentences_exact)

subsection \<open>Subset derivation\<close>

text \<open>
  A knowledge base on a 3 by 3 board whose list holds the given sentences, in this order,
  as separate objects, with no cell known or played.
\<close>

definition knowledge_base :: "(cell set \<times> int) list \<Rightarrow> ai" where
  "knowledge_base ss =
     (ai_init 3 3)\<lparr>knowledge := [0 ..< length ss],
        heap := (\<lambda>r. if r < length ss then \<lparr>cells = fst (ss ! r), count = snd (ss ! r)\<rparr>
                     else \<lparr>cells = {}, count = 0\<rparr>),
        next_ref := length ss\<rparr>"

lemma heap_subtract_sentence:
  "heap (subtract_sentence r r2 s) x =
     (if x = r then \<lparr>cells = cells (heap s r) - cells (heap s r2),
                     count = count (heap s r) - count (heap s r2)\<rparr>
      else heap s x)"
  by (simp add: subtract_sentence_def update_sentence_def)

lemma mines_subset_step [simp]: "mines (subset_step r r2 s) = mines s"
  by (simp add: subset_step_def subtract_sentence_def update_sentence_def Let_def)

lemma mines_fold_subset_step [simp]: "mines (fold (subset_step r) rs s) = mines s"
  by (induction rs arbitrary: s) simp_all

lemma heap_subset_step_other:
  "x \<noteq> r \<Longrightarrow> x \<noteq> r2 \<Longrightarrow> heap (subset_step r r2 s) x = heap s x"
  by (simp add: subset_step_def Let_def heap_subtract_sentence)

lemma heap_fold_subset_step_other:
  "x \<noteq> r \<Longrightarrow> x \<notin> set rs \<Longrightarrow> heap (fold (subset_step r) rs s) x = heap s x"
  by (induction rs arbitrary: s) (simp_all add: heap_subset_step_other)

lemma heap_subset_step_self:
  "\<not> cells (heap s r2) \<subset> cells (heap s r) \<Longrightarrow> heap (subset_step r r2 s) r = heap s r"
  by (auto simp: subset_step_def Let_def heap_subtract_sentence)

lemma heap_fold_subset_step_self:
  assumes "distinct rs" and "\<forall>r2\<in>set rs. \<not> cells (heap s r2) \<subset> cells (heap s r)"
  shows "heap (fold (subset_step r) rs s) r = heap s r"
  using assms
proof (induction rs arbitrary: s)
  case Nil
  show ?case by simp
next
  case (Cons r2 rs)
  let ?s = "subset_step r r2 s"
  have self: "heap ?s r = heap s r"
    using Cons.prems(2) by (simp add: heap_subset_step_self)
  have "\<forall>x\<in>set rs. \<not> cells (heap ?s x) \<subset> cells (heap ?s r)"
  proof
    fix x assume x: "x \<in> set rs"
    then have "x \<noteq> r2" using Cons.prems(1) by auto
    then have "heap ?s x = heap s x"
      using self by (cases "x = r") (simp_all add: heap_subset_step_other)
    then show "\<not> cells (heap ?s x) \<subset> cells (heap ?s r)"
      using self x Cons.prems(2) by simp
  qed
  with Cons.IH [of ?s] Cons.prems(1) self show ?case by simp
qed

lemma resolve_unresolved:
  assumes "card (cells (heap s r)) \<noteq> 0" and "count (heap s r) \<noteq> 0"
    and "int (card (cells (heap s r))) \<noteq> count (heap s r)"
  shows "check_knowledge r s = Inr (fold (subset_step r) (knowledge s) s)"
  using assms by (simp add: check_knowledge_def resolve_def)

lemma card3: "x \<noteq> y \<Longrightarrow> x \<noteq> z \<Longrightarrow> y \<noteq> z \<Longrightarrow> card {x, y, z} = 3"
  by simp

lemma card2: "x \<noteq> y \<Longrightarrow> card {x, y} = 2"
  by simp

text \<open>
  The sentences \<open>A = ({x, y, z}, 2)\<close> at \<open>a\<close> and \<open>B = ({x, y}, 1)\<close> at \<open>b\<close>, in a list
  without repeated references where no other sentence has a strict subset of
  \<open>{x, y, z}\<close> as its cells.
\<close>

definition derivable :: "ai \<Rightarrow> ref \<Rightarrow> ref \<Rightarrow> cell \<Rightarrow> cell \<Rightarrow> cell \<Rightarrow> bool" where
  "derivable s a b x y z \<longleftrightarrow>
     distinct (knowledge s) \<and> a \<in> set (knowledge s) \<and> b \<in> set (knowledge s) \<and>
     heap s a = \<lparr>cells = {x, y, z}, count = 2\<rparr> \<and> heap s b = \<lparr>cells = {x, y}, count = 1\<rparr> \<and>
     x \<noteq> y \<and> x \<noteq> z \<and> y \<noteq> z \<and>
     (\<forall>r\<in>set (knowledge s). r \<noteq> a \<longrightarrow> r \<noteq> b \<longrightarrow> \<not> cells (heap s r) \<subset> {x, y, z})"

lemma derivable_check_superset:
  assumes "derivable s a b x y z"
  shows "check_knowledge a s = Inr (fold (subset_step a) (knowledge s) s) \<and>
         heap (fold (subset_step a) (knowledge s) s) a = \<lparr>cells = {z}, count = 1\<rparr> \<and>
         heap (fold (subset_step a) (knowledge s) s) b = \<lparr>cells = {x, y}, count = 1\<rparr>"
proof -
  from assms have dist: "distinct (knowledge s)" and b: "b \<in> set (knowledge s)"
    and A: "heap s a = \<lparr>cells = {x, y, z}, count = 2\<rparr>"
    and B: "heap s b = \<lparr>cells = {x, y}, count = 1\<rparr>"
    and ne: "x \<noteq> y" "x \<noteq> z" "y \<noteq> z"
    and others: "\<And>r. r \<in> set (knowledge s) \<Longrightarrow> r \<noteq> a \<Longrightarrow> r \<noteq> b \<Longrightarrow> \<not> cells (heap s r) \<subset> {x, y, z}"
    by (auto simp: derivable_def)
  have ab: "a \<noteq> b" using A B by auto
  have chk: "check_knowledge a s = Inr (fold (subset_step a) (knowledge s) s)"
    using A ne by (intro resolve_unresolved) (simp_all add: card3)
  from split_list [OF b] obtain pre post where K: "knowledge s = pre @ b # post" by blast
  have bpre: "b \<notin> set pre" and bpost: "b \<notin> set post" and dpre: "distinct pre" and dpost: "distinct post"
    and disj: "set pre \<inter> set post = {}"
    using dist K by auto
  let ?s1 = "fold (subset_step a) pre s"
  have "\<forall>r2\<in>set pre. \<not> cells (heap s r2) \<subset> cells (heap s a)"
  proof
    fix r2 assume "r2 \<in> set pre"
    then have "r2 \<in> set (knowledge s)" "r2 \<noteq> b" using K bpre by auto
    then show "\<not> cells (heap s r2) \<subset> cells (heap s a)"
      using others [of r2] A by (cases "r2 = a") auto
  qed
  from heap_fold_subset_step_self [OF dpre this]
  have a1: "heap ?s1 a = \<lparr>cells = {x, y, z}, count = 2\<rparr>" using A by simp
  have b1: "heap ?s1 b = \<lparr>cells = {x, y}, count = 1\<rparr>"
    using ab bpre B by (simp add: heap_fold_subset_step_other)
  have post1: "heap ?s1 r = heap s r" if "r \<in> set post" for r
  proof (cases "r = a")
    case True
    then show ?thesis using a1 A by simp
  next
    case False
    moreover have "r \<notin> set pre" using that disj by auto
    ultimately show ?thesis by (simp add: heap_fold_subset_step_other)
  qed
  let ?s2 = "subset_step a b ?s1"
  have sub: "{x, y} \<subset> {x, y, z}" using ne by auto
  have nsub: "\<not> {x, y, z} - {x, y} \<subset> {x, y}" using ne by auto
  have diff: "{x, y, z} - {x, y} = {z}" using ne by auto
  have a2: "heap ?s2 a = \<lparr>cells = {z}, count = 1\<rparr>"
    using a1 b1 ab sub nsub diff by (simp add: subset_step_def Let_def heap_subtract_sentence)
  have b2: "heap ?s2 b = \<lparr>cells = {x, y}, count = 1\<rparr>"
    using a1 b1 ab sub nsub diff by (simp add: subset_step_def Let_def heap_subtract_sentence)
  have post2: "heap ?s2 r = heap s r" if "r \<in> set post" "r \<noteq> a" for r
  proof -
    have "r \<noteq> b" using that(1) bpost by auto
    then have "heap ?s2 r = heap ?s1 r" using that(2) by (simp add: heap_subset_step_other)
    then show ?thesis using post1 [OF that(1)] by simp
  qed
  have "\<forall>r2\<in>set post. \<not> cells (heap ?s2 r2) \<subset> cells (heap ?s2 a)"
  proof
    fix r2 assume r2: "r2 \<in> set post"
    show "\<not> cells (heap ?s2 r2) \<subset> cells (heap ?s2 a)"
    proof (cases "r2 = a")
      case True
      then show ?thesis by simp
    next
      case False
      have "r2 \<in> set (knowledge s)" "r2 \<noteq> b" using r2 K bpost by auto
      from others [OF this(1) False this(2)] have "\<not> cells (heap s r2) \<subset> {x, y, z}" .
      moreover have "{z} \<subseteq> {x, y, z}" by simp
      ultimately have "\<not> cells (heap s r2) \<subset> {z}" by (meson psubset_subset_trans)
      then show ?thesis using post2 [OF r2 False] a2 by simp
    qed
  qed
  from heap_fold_subset_step_self [OF dpost this]
  have a3: "heap (fold (subset_step a) post ?s2) a = \<lparr>cells = {z}, count = 1\<rparr>"
    using a2 by simp
  have b3: "heap (fold (subset_step a) post ?s2) b = \<lparr>cells = {x, y}, count = 1\<rparr>"
    using ab bpost b2 by (simp add: heap_fold_subset_step_other)
  show ?thesis using chk a3 b3 K by simp
qed

lemma derivable_check_subset:
  assumes "derivable s a b x y z"
  shows "check_knowledge b s = Inr (fold (subset_step b) (knowledge s) s) \<and>
         heap (fold (subset_step b) (knowledge s) s) a = \<lparr>cells = {z}, count = 1\<rparr> \<and>
         heap (fold (subset_step b) (knowledge s) s) b = \<lparr>cells = {x, y}, count = 1\<rparr>"
proof -
  from assms have dist: "distinct (knowledge s)" and a: "a \<in> set (knowledge s)"
    and A: "heap s a = \<lparr>cells = {x, y, z}, count = 2\<rparr>"
    and B: "heap s b = \<lparr>cells = {x, y}, count = 1\<rparr>"
    and ne: "x \<noteq> y" "x \<noteq> z" "y \<noteq> z"
    and others: "\<And>r. r \<in> set (knowledge s) \<Longrightarrow> r \<noteq> a \<Longrightarrow> r \<noteq> b \<Longrightarrow> \<not> cells (heap s r) \<subset> {x, y, z}"
    by (auto simp: derivable_def)
  have ab: "a \<noteq> b" using A B by auto
  have chk: "check_knowledge b s = Inr (fold (subset_step b) (knowledge s) s)"
    using B ne by (intro resolve_unresolved) (simp_all add: card2)
  have sub: "{x, y} \<subset> {x, y, z}" using ne by auto
  have nsub: "\<not> {x, y, z} \<subset> {x, y}" using ne by auto
  have diff: "{x, y, z} - {x, y} = {z}" using ne by auto
  have "\<forall>r2\<in>set (knowledge s). \<not> cells (heap s r2) \<subset> cells (heap s b)"
  proof
    fix r2 assume r2: "r2 \<in> set (knowledge s)"
    show "\<not> cells (heap s r2) \<subset> cells (heap s b)"
    proof (cases "r2 = a \<or> r2 = b")
      case True
      then show ?thesis using A B nsub by auto
    next
      case False
      with others [OF r2] have "\<not> cells (heap s r2) \<subset> {x, y, z}" by simp
      then have "\<not> cells (heap s r2) \<subset> {x, y}" using sub by (meson psubset_trans)
      then show ?thesis using B by simp
    qed
  qed
  from heap_fold_subset_step_self [OF dist this]
  have b3: "heap (fold (subset_step b) (knowledge s) s) b = \<lparr>cells = {x, y}, count = 1\<rparr>"
    using B by simp
  from split_list [OF a] obtain pre post where K: "knowledge s = pre @ a # post" by blast
  have apre: "a \<notin> set pre" and apost: "a \<notin> set post" and dpre: "distinct pre"
    using dist K by auto
  let ?s1 = "fold (subset_step b) pre s"
  have a1: "heap ?s1 a = \<lparr>cells = {x, y, z}, count = 2\<rparr>"
    using ab apre A by (simp add: heap_fold_subset_step_other)
  have "\<forall>r2\<in>set pre. \<not> cells (heap s r2) \<subset> cells (heap s b)"
    using \<open>\<forall>r2\<in>set (knowledge s). \<not> cells (heap s r2) \<subset> cells (heap s b)\<close> K by simp
  from heap_fold_subset_step_self [OF dpre this]
  have b1: "heap ?s1 b = \<lparr>cells = {x, y}, count = 1\<rparr>" using B by simp
  let ?s2 = "subset_step b a ?s1"
  have a2: "heap ?s2 a = \<lparr>cells = {z}, count = 1\<rparr>"
    using a1 b1 ab sub nsub diff by (simp add: subset_step_def Let_def heap_subtract_sentence)
  have a3: "heap (fold (subset_step b) post ?s2) a = \<lparr>cells = {z}, count = 1\<rparr>"
    using ab apost a2 by (simp add: heap_fold_subset_step_other)
  show ?thesis using chk a3 b3 K by simp
qed

lemma mines_fold_ai_mark_mine [simp]: "mines (fold ai_mark_mine cs s) = set cs \<union> mines s"
  by (induction cs arbitrary: s) auto

lemma mines_fold_ai_mark_safe [simp]: "mines (fold ai_mark_safe cs s) = mines s"
  by (induction cs arbitrary: s) auto

lemma mines_knowledge_remove: "knowledge_remove r s = Inr s' \<Longrightarrow> mines s' = mines s"
  by (auto simp: knowledge_remove_def split: option.splits)

lemma mines_resolve:
  assumes "resolve r s = Inr s'"
  shows "mines s \<subseteq> mines s'"
proof -
  have "s' = s \<or> knowledge_remove r s = Inr s' \<or>
        knowledge_remove r (fold ai_mark_safe (set_iter (cells (heap s r))) s) = Inr s' \<or>
        knowledge_remove r (fold ai_mark_mine (set_iter (cells (heap s r))) s) = Inr s'"
    using assms unfolding resolve_def by (metis sum.inject(2))
  then consider "s' = s" | "mines s' = mines s"
    | "mines s' = mines (fold ai_mark_safe (set_iter (cells (heap s r))) s)"
    | "mines s' = mines (fold ai_mark_mine (set_iter (cells (heap s r))) s)"
    using mines_knowledge_remove by blast
  then show ?thesis
    by cases simp_all
qed

lemma mines_check_knowledge:
  assumes "check_knowledge r s = Inr s'"
  shows "mines s \<subseteq> mines s'"
proof -
  from assms obtain s1 where s1: "resolve r s = Inr s1"
    and s': "s' = fold (subset_step r) (knowledge s1) s1"
    by (auto simp: check_knowledge_def split: sum.splits)
  from mines_resolve [OF s1] s' show ?thesis by simp
qed

lemma check_all_step:
  "i < length (knowledge s) \<Longrightarrow> check_knowledge (knowledge s ! i) s = Inr s1 \<Longrightarrow>
   check_all i s = check_all (Suc i) s1"
  by (subst check_all.simps) simp

lemma mines_check_all: "check_all i s = Inr s' \<Longrightarrow> mines s \<subseteq> mines s'"
proof (induction i s rule: check_all.induct)
  case (1 i s)
  show ?case
  proof (cases "i < length (knowledge s)")
    case True
    with "1.prems"(1) obtain s1 where
      s1: "check_knowledge (knowledge s ! i) s = Inr s1" and rest: "check_all (Suc i) s1 = Inr s'"
      by (subst (asm) check_all.simps) (auto split: sum.splits)
    from "1.IH" [OF True s1 rest] mines_check_knowledge [OF s1] show ?thesis by blast
  next
    case False
    with "1.prems" show ?thesis by (subst (asm) check_all.simps) simp
  qed
qed

lemma check_knowledge_single_mine:
  assumes "heap s r = \<lparr>cells = {z}, count = 1\<rparr>" and "r \<in> set (knowledge s)"
  shows "\<exists>s'. check_knowledge r s = Inr s' \<and> z \<in> mines s'"
proof -
  have r: "resolve r s = knowledge_remove r (fold ai_mark_mine (set_iter {z}) s)"
    using assms(1) by (simp add: resolve_def)
  from resolve_ok [OF assms(2)] obtain s1 where s1: "resolve r s = Inr s1" by blast
  with r have "knowledge_remove r (fold ai_mark_mine (set_iter {z}) s) = Inr s1" by simp
  from mines_knowledge_remove [OF this]
  have "mines s1 = mines (fold ai_mark_mine (set_iter {z}) s)" .
  also have "\<dots> = insert z (mines s)" by simp
  finally have "z \<in> mines s1" by simp
  with s1 show ?thesis by (simp add: check_knowledge_def)
qed

lemma check_all_single_mine:
  assumes "i < length (knowledge s)" and "heap s (knowledge s ! i) = \<lparr>cells = {z}, count = 1\<rparr>"
  shows "\<exists>s'. check_all i s = Inr s' \<and> z \<in> mines s'"
proof -
  from check_knowledge_single_mine [OF assms(2)] assms(1) obtain s1
    where s1: "check_knowledge (knowledge s ! i) s = Inr s1" "z \<in> mines s1" by auto
  obtain s' where s': "check_all (Suc i) s1 = Inr s'" using check_all_ok by blast
  from mines_check_all [OF s'] s1(2) have "z \<in> mines s'" by auto
  with check_all_step [OF assms(1) s1(1)] s' show ?thesis by simp
qed

lemma conclude_unresolved:
  "known_mines (heap s r) = None \<Longrightarrow> known_safes (heap s r) = None \<Longrightarrow> conclude r s = s"
  by (simp add: conclude_def conclude_mines_def conclude_safes_def truthy_def)

lemma two_statements_turn:
  assumes K: "knowledge s1 = [a, b] \<or> knowledge s1 = [b, a]"
    and a: "heap s1 a = \<lparr>cells = {z}, count = 1\<rparr>"
    and b: "heap s1 b = \<lparr>cells = {x, y}, count = 1\<rparr>"
    and ne: "x \<noteq> y" "x \<noteq> z" "y \<noteq> z"
  shows "\<exists>s2. check_all 0 s1 = Inr s2 \<and> z \<in> mines s2"
  using K
proof
  assume "knowledge s1 = [a, b]"
  then show ?thesis using check_all_single_mine [of 0 s1 z] a by simp
next
  assume K: "knowledge s1 = [b, a]"
  have ab: "a \<noteq> b" using a b ne by auto
  let ?s = "fold (subset_step b) (knowledge s1) s1"
  have chk: "check_knowledge b s1 = Inr ?s"
    using b ne by (intro resolve_unresolved) (simp_all add: card2)
  have n1: "\<not> {z} \<subset> {x, y}" and n2: "\<not> {x, y} \<subset> {z}" using ne by auto
  have "subset_step b b s1 = s1" by (simp add: subset_step_def)
  moreover have "subset_step b a s1 = s1"
    using a b n1 n2 by (simp add: subset_step_def)
  ultimately have "?s = s1" using K by simp
  with chk have "check_all 0 s1 = check_all 1 s1"
    using check_all_step [of 0 s1 s1] K by simp
  moreover have "\<exists>s'. check_all 1 s1 = Inr s' \<and> z \<in> mines s'"
    using check_all_single_mine [of 1 s1 z] K a by simp
  ultimately show ?thesis by simp
qed

lemma two_statements_infer:
  assumes d: "derivable s a b x y z" and two: "set (knowledge s) = {a, b}"
    and r: "r = a \<or> r = b"
  shows "\<exists>s'. infer r s = Inr s' \<and> z \<in> mines s'"
proof -
  from d have dist: "distinct (knowledge s)"
    and A: "heap s a = \<lparr>cells = {x, y, z}, count = 2\<rparr>"
    and B: "heap s b = \<lparr>cells = {x, y}, count = 1\<rparr>"
    and ne: "x \<noteq> y" "x \<noteq> z" "y \<noteq> z"
    by (auto simp: derivable_def)
  have ab: "a \<noteq> b" using A B by auto
  have "length (knowledge s) = card {a, b}"
    using distinct_card [OF dist] two by simp
  then have "length (knowledge s) = 2"
    using ab by simp
  then obtain p q where pq: "knowledge s = [p, q]"
    by (cases "knowledge s") (auto simp: length_Suc_conv)
  with two have "{p, q} = {a, b}" by simp
  then have "(p = a \<and> q = b) \<or> (p = b \<and> q = a)"
    by (simp add: doubleton_eq_iff)
  with pq have K: "knowledge s = [a, b] \<or> knowledge s = [b, a]"
    by auto
  have ca: "conclude a s = s"
    using A ne by (intro conclude_unresolved) (simp_all add: known_mines_def known_safes_def card3)
  have cb: "conclude b s = s"
    using B ne by (intro conclude_unresolved) (simp_all add: known_mines_def known_safes_def card2)
  have fc: "fold conclude (knowledge s) s = s"
    using K ca cb by auto
  define s1 where "s1 = fold (subset_step r) (knowledge s) s"
  have s1: "check_knowledge r s = Inr s1 \<and> heap s1 a = \<lparr>cells = {z}, count = 1\<rparr> \<and>
      heap s1 b = \<lparr>cells = {x, y}, count = 1\<rparr>"
    using r
  proof
    assume "r = a"
    then show ?thesis using derivable_check_superset [OF d] by (simp add: s1_def)
  next
    assume "r = b"
    then show ?thesis using derivable_check_subset [OF d] by (simp add: s1_def)
  qed
  have k1: "knowledge s1 = knowledge s" by (simp add: s1_def)
  have K1: "knowledge s1 = [a, b] \<or> knowledge s1 = [b, a]" using K k1 by simp
  from s1 have s1a: "heap s1 a = \<lparr>cells = {z}, count = 1\<rparr>"
    and s1b: "heap s1 b = \<lparr>cells = {x, y}, count = 1\<rparr>"
    and s1c: "check_knowledge r s = Inr s1" by simp_all
  from two_statements_turn [OF K1 s1a s1b ne]
  obtain s2 where s2: "check_all 0 s1 = Inr s2" "z \<in> mines s2" by blast
  obtain s3 where s3: "check_all 0 s2 = Inr s3" using check_all_ok by blast
  from mines_check_all [OF s3] s2(2) have "z \<in> mines s3" by blast
  with s1c s2(1) s3 fc show ?thesis by (simp add: infer_def)
qed

lemma derivable_example:
  "derivable (knowledge_base [({(0, 0), (0, 1), (0, 2)}, 2), ({(0, 0), (0, 1)}, 1)])
     0 1 (0, 0) (0, 1) (0, 2)"
  by code_simp

subsection \<open>The order in which a set is iterated\<close>

text \<open>
  The marking loops and the loop that builds the new sentence give the same result for
  every listing of the set they iterate, so the order \<open>set_iter\<close> fixes does not show in
  the state of the knowledge base.
\<close>

lemma cells_fold_mark_mine: "cells (fold mark_mine cs sen) = cells sen - set cs"
  by (induction cs arbitrary: sen) (auto simp: mark_mine_def)

lemma count_fold_mark_mine:
  "count (fold mark_mine cs sen) = count sen - int (card (cells sen \<inter> set cs))"
proof (induction cs arbitrary: sen)
  case Nil
  show ?case by simp
next
  case (Cons x cs)
  show ?case
  proof (cases "x \<in> cells sen")
    case True
    have fin: "finite ((cells sen - {x}) \<inter> set cs)" by simp
    have "cells sen \<inter> set (x # cs) = insert x ((cells sen - {x}) \<inter> set cs)"
      using True by auto
    moreover have "x \<notin> (cells sen - {x}) \<inter> set cs" by simp
    ultimately have "card (cells sen \<inter> set (x # cs)) = Suc (card ((cells sen - {x}) \<inter> set cs))"
      using fin by simp
    then show ?thesis
      using True Cons.IH [of "mark_mine x sen"] by (simp add: mark_mine_def)
  next
    case False
    then have "cells sen \<inter> set (x # cs) = cells sen \<inter> set cs" by auto
    then show ?thesis
      using False Cons.IH [of sen] by (simp add: mark_mine_def)
  qed
qed

lemma cells_fold_mark_safe: "cells (fold mark_safe cs sen) = cells sen - set cs"
  by (induction cs arbitrary: sen) (auto simp: mark_safe_def)

lemma count_fold_mark_safe: "count (fold mark_safe cs sen) = count sen"
  by (induction cs arbitrary: sen) (auto simp: mark_safe_def)

lemma fold_mark_mine_order:
  "set xs = set ys \<Longrightarrow> fold mark_mine xs sen = fold mark_mine ys sen"
  by (rule sentence.equality) (simp_all add: cells_fold_mark_mine count_fold_mark_mine)

lemma fold_mark_safe_order:
  "set xs = set ys \<Longrightarrow> fold mark_safe xs sen = fold mark_safe ys sen"
  by (rule sentence.equality) (simp_all add: cells_fold_mark_safe count_fold_mark_safe)

lemma fold_ai_mark_mine_fields [simp]:
  "moves_made (fold ai_mark_mine cs s) = moves_made s"
  "safes (fold ai_mark_mine cs s) = safes s"
  "next_ref (fold ai_mark_mine cs s) = next_ref s"
  by (induction cs arbitrary: s) simp_all

lemma fold_ai_mark_safe_fields [simp]:
  "moves_made (fold ai_mark_safe cs s) = moves_made s"
  "safes (fold ai_mark_safe cs s) = set cs \<union> safes s"
  "next_ref (fold ai_mark_safe cs s) = next_ref s"
  by (induction cs arbitrary: s) auto

lemma heap_fold_ai_mark_mine:
  "heap (fold ai_mark_mine cs s) r =
     (if r \<in> set (knowledge s) then fold mark_mine cs (heap s r) else heap s r)"
  by (induction cs arbitrary: s) simp_all

lemma heap_fold_ai_mark_safe:
  "heap (fold ai_mark_safe cs s) r =
     (if r \<in> set (knowledge s) then fold mark_safe cs (heap s r) else heap s r)"
  by (induction cs arbitrary: s) simp_all

lemma fold_ai_mark_mine_order:
  assumes "set xs = set ys"
  shows "fold ai_mark_mine xs s = fold ai_mark_mine ys s"
proof (rule ai.equality)
  show "heap (fold ai_mark_mine xs s) = heap (fold ai_mark_mine ys s)"
    using fold_mark_mine_order [OF assms] by (simp add: fun_eq_iff heap_fold_ai_mark_mine)
qed (simp_all add: assms)

lemma fold_ai_mark_safe_order:
  assumes "set xs = set ys"
  shows "fold ai_mark_safe xs s = fold ai_mark_safe ys s"
proof (rule ai.equality)
  show "heap (fold ai_mark_safe xs s) = heap (fold ai_mark_safe ys s)"
    using fold_mark_safe_order [OF assms] by (simp add: fun_eq_iff heap_fold_ai_mark_safe)
qed (simp_all add: assms)

lemma fold_known_mines_order:
  assumes "distinct xs" and "distinct ys" and "set xs = set ys" and "finite (cells sen)"
  shows "fold (\<lambda>c' sen. if c' \<in> mi then mark_mine c' sen else sen) xs sen =
         fold (\<lambda>c' sen. if c' \<in> mi then mark_mine c' sen else sen) ys sen"
  using assms by (simp add: fold_known_mines)

subsection \<open>The random move on an empty table\<close>

text \<open>
  When the table is empty before the call and no sentence of the list is without
  cells, \<^verbatim>\<open>make_random_move\<close> returns a cell of some sentence whose summed
  \<open>count / |cells|\<close> is least, and with no sentence at all it returns the first cell in
  row-major order outside \<^verbatim>\<open>mines \<union> moves_made\<close>, or \<^verbatim>\<open>None\<close>.
\<close>

lemma fold_least:
  fixes e :: "cell \<times> rat"
  shows "fold (\<lambda>x best. if snd x < snd best then x else best) es e \<in> set (e # es) \<and>
   (\<forall>x\<in>set (e # es). snd (fold (\<lambda>x best. if snd x < snd best then x else best) es e) \<le> snd x)"
proof (induction es arbitrary: e)
  case Nil
  show ?case by simp
next
  case (Cons x es)
  let ?e = "if snd x < snd e then x else e"
  have step: "fold (\<lambda>x best. if snd x < snd best then x else best) (x # es) e =
              fold (\<lambda>x best. if snd x < snd best then x else best) es ?e"
    by simp
  from Cons.IH [of ?e] have mem: "fold (\<lambda>x best. if snd x < snd best then x else best) es ?e \<in> set (?e # es)"
    and le: "\<forall>y\<in>set (?e # es). snd (fold (\<lambda>x best. if snd x < snd best then x else best) es ?e) \<le> snd y"
    by blast+
  have "set (?e # es) \<subseteq> set (e # x # es)" by auto
  with mem have m: "fold (\<lambda>x best. if snd x < snd best then x else best) es ?e \<in> set (e # x # es)"
    by blast
  from le have e': "snd (fold (\<lambda>x best. if snd x < snd best then x else best) es ?e) \<le> snd ?e"
    and rest: "\<forall>y\<in>set es. snd (fold (\<lambda>x best. if snd x < snd best then x else best) es ?e) \<le> snd y"
    by simp_all
  have "snd ?e \<le> snd e" and "snd ?e \<le> snd x" by auto
  with e' have "snd (fold (\<lambda>x best. if snd x < snd best then x else best) es ?e) \<le> snd e"
    and "snd (fold (\<lambda>x best. if snd x < snd best then x else best) es ?e) \<le> snd x"
    by linarith+
  with rest m show ?case unfolding step by simp
qed

lemma min_key_least:
  fixes tbl :: score_table
  assumes "tbl \<noteq> []"
  shows "\<exists>k v. min_key tbl = Some k \<and> (k, v) \<in> set tbl \<and> (\<forall>x\<in>set tbl. v \<le> snd x)"
proof -
  from assms obtain e es where tbl: "tbl = e # es" by (cases tbl) auto
  let ?m = "fold (\<lambda>x best. if snd x < snd best then x else best) es e"
  from fold_least [of es e] have "?m \<in> set tbl" and "\<forall>x\<in>set tbl. snd ?m \<le> snd x"
    using tbl by simp_all
  moreover have "min_key tbl = Some (fst ?m)" by (simp add: min_key_def tbl)
  ultimately have "min_key tbl = Some (fst ?m) \<and> (fst ?m, snd ?m) \<in> set tbl \<and>
      (\<forall>x\<in>set tbl. snd ?m \<le> snd x)"
    by simp
  then show ?thesis by blast
qed

lemma keys_add_score:
  "map fst (add_score p c tbl) = (if c \<in> fst ` set tbl then map fst tbl else map fst tbl @ [c])"
proof -
  have "map fst (map (\<lambda>(k, v). if k = c then (k, v + p) else (k, v)) tbl) = map fst tbl"
    by (induction tbl) auto
  then show ?thesis by (simp add: add_score_def)
qed

lemma distinct_add_score:
  "distinct (map fst tbl) \<Longrightarrow> distinct (map fst (add_score p c tbl))"
  by (simp add: keys_add_score)

lemma distinct_fold_add_score:
  "distinct (map fst tbl) \<Longrightarrow> distinct (map fst (fold (add_score p) cs tbl))"
  by (induction cs arbitrary: tbl) (simp_all add: distinct_add_score)

lemma distinct_score_sentences:
  "distinct (map fst tbl) \<Longrightarrow> distinct (map fst (snd (score_sentences h rs tbl)))"
  by (induction rs arbitrary: tbl) (simp_all add: distinct_fold_add_score)

lemma scored_all: "\<forall>r\<in>set rs. card (cells (h r)) \<noteq> 0 \<Longrightarrow> scored h rs = rs"
  by (simp add: scored_def)

lemma random_move_fresh_table:
  assumes full: "\<forall>r\<in>set (knowledge s). card (cells (heap s r)) \<noteq> 0"
  shows "(knowledge s = [] \<longrightarrow> fst (make_random_move s []) = Inr (first_free s)) \<and>
         (knowledge s \<noteq> [] \<longrightarrow>
            (\<exists>k. fst (make_random_move s []) = Inr (Some k) \<and>
                 (\<exists>r\<in>set (knowledge s). k \<in> cells (heap s r)) \<and>
                 (\<forall>k'. (\<exists>r\<in>set (knowledge s). k' \<in> cells (heap s r)) \<longrightarrow>
                    gain (heap s) (knowledge s) k \<le> gain (heap s) (knowledge s) k')))"
proof -
  let ?h = "heap s" and ?K = "knowledge s"
  let ?tbl = "snd (score_sentences ?h ?K [])"
  have sc: "scored ?h ?K = ?K" using full by (rule scored_all)
  have noerr: "fst (score_sentences ?h ?K []) = None"
    by (simp add: fst_score_sentences sc)
  have look: "map_of ?tbl k =
      (if \<exists>r\<in>set ?K. k \<in> cells (?h r) then Some (gain ?h ?K k) else None)" for k
    by (simp add: map_of_score_sentences sc score_of_def)
  have dist: "distinct (map fst ?tbl)" by (simp add: distinct_score_sentences)
  have res: "fst (make_random_move s []) = Inr (if ?tbl \<noteq> [] then min_key ?tbl else first_free s)"
    using noerr by (cases "score_sentences ?h ?K []") (simp add: make_random_move_def)
  show ?thesis
  proof (intro conjI impI)
    assume "?K = []"
    then show "fst (make_random_move s []) = Inr (first_free s)"
      by (simp add: make_random_move_def)
  next
    assume ne: "?K \<noteq> []"
    then obtain r where r: "r \<in> set ?K" by (cases ?K) auto
    with full have "cells (?h r) \<noteq> {}" by auto
    then obtain c where "c \<in> cells (?h r)" by blast
    with r have "map_of ?tbl c \<noteq> None" by (auto simp: look)
    then have tne: "?tbl \<noteq> []" by auto
    from min_key_least [OF tne] obtain k v where
      k: "min_key ?tbl = Some k" "(k, v) \<in> set ?tbl" "\<forall>x\<in>set ?tbl. v \<le> snd x"
      by blast
    from k(2) dist have kv: "map_of ?tbl k = Some v" by simp
    then have mem: "\<exists>r\<in>set ?K. k \<in> cells (?h r)" and v: "v = gain ?h ?K k"
      by (auto simp: look split: if_splits)
    have least: "gain ?h ?K k \<le> gain ?h ?K k'" if "\<exists>r\<in>set ?K. k' \<in> cells (?h r)" for k'
    proof -
      from that have "map_of ?tbl k' = Some (gain ?h ?K k')" by (simp add: look)
      then have "(k', gain ?h ?K k') \<in> set ?tbl" by (rule map_of_SomeD)
      with k(3) v show ?thesis by auto
    qed
    show "\<exists>k. fst (make_random_move s []) = Inr (Some k) \<and>
            (\<exists>r\<in>set ?K. k \<in> cells (?h r)) \<and>
            (\<forall>k'. (\<exists>r\<in>set ?K. k' \<in> cells (?h r)) \<longrightarrow> gain ?h ?K k \<le> gain ?h ?K k')"
    proof (intro exI conjI allI impI)
      show "fst (make_random_move s []) = Inr (Some k)" using res tne k(1) by simp
      show "\<exists>r\<in>set ?K. k \<in> cells (?h r)" by (rule mem)
    next
      fix k' assume "\<exists>r\<in>set ?K. k' \<in> cells (?h r)"
      then show "gain ?h ?K k \<le> gain ?h ?K k'" by (rule least)
    qed
  qed
qed

subsection \<open>The constructor can return\<close>

text \<open>
  \<^verbatim>\<open>__init__\<close> returns when \<^verbatim>\<open>randrange\<close> draws enough different cells, and such draws
  exist whenever \<open>0 \<le> mines \<le> height * width\<close> on a grid without negative sides.
\<close>

lemma board_ok_finite: "board_ok g \<Longrightarrow> finite (ms_mines g)"
proof -
  assume "board_ok g"
  then have "ms_mines g \<subseteq> {d. in_bounds (ms_height g) (ms_width g) d}"
    by (auto simp: board_ok_def)
  then show ?thesis by (rule finite_subset) (rule finite_in_bounds)
qed

lemma place_mines_fresh_draws:
  assumes "board_ok g" and "distinct ds" and "set ds \<inter> ms_mines g = {}"
    and "\<forall>d\<in>set ds. in_bounds (ms_height g) (ms_width g) d"
    and "n = int (card (ms_mines g)) + int (length ds)"
  shows "\<exists>g'. place_mines n ds g = Some (Inr g')"
  using assms
proof (induction ds arbitrary: g)
  case Nil
  then show ?case by (subst place_mines.simps) simp
next
  case (Cons d ds)
  let ?g = "g\<lparr>ms_mines := insert d (ms_mines g), board := set_board d (board g)\<rparr>"
  have inb: "in_bounds (ms_height g) (ms_width g) d" using Cons.prems(4) by simp
  have new: "d \<notin> ms_mines g" using Cons.prems(3) by simp
  have free: "\<not> board g ! nat (fst d) ! nat (snd d)"
    using Cons.prems(1) inb new by (simp add: board_ok_def)
  have ne: "int (card (ms_mines g)) \<noteq> n" using Cons.prems(5) by simp
  have dims: "\<not> (ms_height g \<le> 0 \<or> ms_width g \<le> 0)"
    using inb by (auto simp: in_bounds_def)
  have step: "place_mines n (d # ds) g = place_mines n ds ?g"
    using ne dims inb free by (subst place_mines.simps) simp
  have "card (ms_mines ?g) = Suc (card (ms_mines g))"
    using board_ok_finite [OF Cons.prems(1)] new by simp
  then have n: "n = int (card (ms_mines ?g)) + int (length ds)"
    using Cons.prems(5) by simp
  have "\<exists>g'. place_mines n ds ?g = Some (Inr g')"
  proof (rule Cons.IH [OF board_ok_place [OF Cons.prems(1) inb] _ _ _ n])
    show "distinct ds" using Cons.prems(2) by simp
    show "set ds \<inter> ms_mines ?g = {}" using Cons.prems(2,3) by auto
    show "\<forall>e\<in>set ds. in_bounds (ms_height ?g) (ms_width ?g) e"
      using Cons.prems(4) by simp
  qed
  with step show ?case by simp
qed

lemma minesweeper_init_returns:
  assumes "0 \<le> n" and "n \<le> h * w" and "0 \<le> h" and "0 \<le> w"
  shows "\<exists>ds g. minesweeper_init h w n ds = Some (Inr g)"
proof -
  let ?all = "List.product [0 .. h - 1] [0 .. w - 1]"
  let ?ds = "take (nat n) ?all"
  let ?g = "\<lparr>ms_height = h, ms_width = w, ms_mines = {},
     board = replicate (nat h) (replicate (nat w) False), mines_found = {}\<rparr>"
  have len: "length ?all = nat (h * w)"
    using assms(3,4) by (simp add: nat_mult_distrib)
  have "distinct ?all" by (simp add: distinct_product)
  then have d: "distinct ?ds" by (rule distinct_take)
  have "\<forall>d\<in>set ?all. in_bounds h w d"
    by (auto simp: in_bounds_def)
  then have b: "\<forall>d\<in>set ?ds. in_bounds (ms_height ?g) (ms_width ?g) d"
    by (auto dest: in_set_takeD)
  have l: "n = int (card (ms_mines ?g)) + int (length ?ds)"
    using assms(1,2) len by simp
  from place_mines_fresh_draws [OF board_ok_start d _ b l]
  show ?thesis by (auto simp: minesweeper_init_def)
qed

subsection \<open>References stay fresh\<close>

text \<open>
  In every state a run reaches from the initial one, the knowledge list holds no
  reference twice and only references below \<open>next_ref\<close>: the reference
  \<^verbatim>\<open>add_knowledge\<close> gives the new sentence is one no list element or variable holds, as
  a new Python object is.
\<close>

definition fresh :: "ai \<Rightarrow> bool" where
  "fresh s \<longleftrightarrow> distinct (knowledge s) \<and> (\<forall>r\<in>set (knowledge s). r < next_ref s)"

lemma remove_first_sublist:
  "remove_first P xs = Some ys \<Longrightarrow> set ys \<subseteq> set xs \<and> (distinct xs \<longrightarrow> distinct ys)"
proof (induction xs arbitrary: ys)
  case Nil
  then show ?case by simp
next
  case (Cons x xs)
  show ?case
  proof (cases "P x")
    case True
    with Cons.prems show ?thesis by auto
  next
    case False
    with Cons.prems obtain zs where zs: "remove_first P xs = Some zs" and ys: "ys = x # zs"
      by auto
    from Cons.IH [OF zs] ys show ?thesis by auto
  qed
qed

lemma next_ref_update_sentence [simp]: "next_ref (update_sentence f r s) = next_ref s"
  by (simp add: update_sentence_def)

lemma next_ref_subset_step [simp]: "next_ref (subset_step r r2 s) = next_ref s"
  by (simp add: subset_step_def subtract_sentence_def Let_def)

lemma next_ref_fold_subset_step [simp]: "next_ref (fold (subset_step r) rs s) = next_ref s"
  by (induction rs arbitrary: s) simp_all

lemma fresh_same:
  "knowledge s' = knowledge s \<Longrightarrow> next_ref s' = next_ref s \<Longrightarrow> fresh s \<Longrightarrow> fresh s'"
  by (simp add: fresh_def)

lemma fresh_knowledge_remove: "knowledge_remove r s = Inr s' \<Longrightarrow> fresh s \<Longrightarrow> fresh s'"
proof -
  assume rm: "knowledge_remove r s = Inr s'" and f: "fresh s"
  from rm obtain rs where rs: "remove_first (\<lambda>r'. sentence_eq (heap s r') (heap s r)) (knowledge s) = Some rs"
    and s': "s' = s\<lparr>knowledge := rs\<rparr>"
    by (auto simp: knowledge_remove_def split: option.splits)
  from remove_first_sublist [OF rs] f show ?thesis
    by (auto simp: fresh_def s')
qed

lemma fresh_resolve:
  assumes "resolve r s = Inr s'" and "fresh s"
  shows "fresh s'"
proof -
  have "s' = s \<or> knowledge_remove r s = Inr s' \<or>
        knowledge_remove r (fold ai_mark_safe (set_iter (cells (heap s r))) s) = Inr s' \<or>
        knowledge_remove r (fold ai_mark_mine (set_iter (cells (heap s r))) s) = Inr s'"
    using assms(1) unfolding resolve_def by (metis sum.inject(2))
  moreover have "fresh (fold ai_mark_safe (set_iter (cells (heap s r))) s)"
    and "fresh (fold ai_mark_mine (set_iter (cells (heap s r))) s)"
    using assms(2) by (simp_all add: fresh_def)
  ultimately show ?thesis
    using assms(2) fresh_knowledge_remove by blast
qed

lemma fresh_check_knowledge:
  assumes "check_knowledge r s = Inr s'" and "fresh s"
  shows "fresh s'"
proof -
  from assms(1) obtain s1 where s1: "resolve r s = Inr s1"
    and s': "s' = fold (subset_step r) (knowledge s1) s1"
    by (auto simp: check_knowledge_def split: sum.splits)
  from fresh_resolve [OF s1 assms(2)] s' show ?thesis by (simp add: fresh_def)
qed

lemma fresh_check_all: "check_all i s = Inr s' \<Longrightarrow> fresh s \<Longrightarrow> fresh s'"
proof (induction i s rule: check_all.induct)
  case (1 i s)
  show ?case
  proof (cases "i < length (knowledge s)")
    case True
    with "1.prems"(1) obtain s1 where
      s1: "check_knowledge (knowledge s ! i) s = Inr s1" and rest: "check_all (Suc i) s1 = Inr s'"
      by (subst (asm) check_all.simps) (auto split: sum.splits)
    from fresh_check_knowledge [OF s1 "1.prems"(2)] have "fresh s1" .
    with "1.IH" [OF True s1 rest] show ?thesis .
  next
    case False
    with "1.prems" show ?thesis by (subst (asm) check_all.simps) simp
  qed
qed

lemma next_ref_conclude [simp]: "next_ref (conclude r s) = next_ref s"
  by (simp add: conclude_def conclude_mines_def conclude_safes_def split: option.splits)

lemma next_ref_fold_conclude [simp]: "next_ref (fold conclude rs s) = next_ref s"
  by (induction rs arbitrary: s) simp_all

lemma fresh_infer:
  assumes "infer r s = Inr s'" and "fresh s"
  shows "fresh s'"
proof -
  from assms(1) obtain s1 s2 where s1: "check_knowledge r (fold conclude (knowledge s) s) = Inr s1"
    and s2: "check_all 0 s1 = Inr s2" and s3: "check_all 0 s2 = Inr s'"
    by (auto simp: infer_def split: sum.splits)
  have "fresh (fold conclude (knowledge s) s)"
    using assms(2) by (simp add: fresh_def)
  from fresh_check_all [OF s3 fresh_check_all [OF s2 fresh_check_knowledge [OF s1 this]]]
  show ?thesis .
qed

lemma fresh_insert_sentence: "fresh s \<Longrightarrow> fresh (insert_sentence c n s)"
  by (auto simp: fresh_def)

lemma fresh_apply_op:
  assumes "apply_op g op s = Inr s'" and "fresh s"
  shows "fresh s'"
proof (cases op)
  case (Add_knowledge c)
  with assms(1) obtain n where "add_knowledge c n s = Inr s'"
    by (auto split: sum.splits)
  then have "infer (next_ref s) (insert_sentence c n s) = Inr s'"
    by (simp add: add_knowledge_def)
  from fresh_infer [OF this fresh_insert_sentence [OF assms(2)]] show ?thesis .
next
  case (Mark_mine c)
  with assms show ?thesis by (auto simp: fresh_def)
next
  case (Mark_safe c)
  with assms show ?thesis by (auto simp: fresh_def)
next
  case (Check_knowledge i)
  with assms show ?thesis by (auto split: if_splits dest: fresh_check_knowledge)
qed

lemma fresh_run: "run g ops s = Inr s' \<Longrightarrow> fresh s \<Longrightarrow> fresh s'"
proof (induction ops arbitrary: s)
  case Nil
  then show ?case by simp
next
  case (Cons op ops)
  from Cons.prems(1) obtain s1 where s1: "apply_op g op s = Inr s1" and rest: "run g ops s1 = Inr s'"
    by (auto split: sum.splits)
  from Cons.IH [OF rest fresh_apply_op [OF s1 Cons.prems(2)]] show ?case .
qed

lemma fresh_init: "fresh (ai_init h w)"
  by (simp add: fresh_def ai_init_def)

section \<open>Claims\<close>

text \<open>
  C1 (subset derivation), as stated for every knowledge base that holds
  \<open>A = ({1, 2, 3}, 2)\<close> and \<open>B = ({1, 2}, 1)\<close>, fails on the code. The cells \<open>1, 2, 3\<close>
  are \<open>(0, 0), (0, 1), (0, 2)\<close> here.
  \<^item> With the list \<open>[D, B, A]\<close>, \<open>D = ({2, 3}, 1)\<close>, \<^verbatim>\<open>check_knowledge(A)\<close> (the call
    \<^verbatim>\<open>add_knowledge\<close> makes for a new \<open>A\<close>) meets \<open>D\<close> first and turns \<open>A\<close> into \<open>({1}, 1)\<close>,
    then turns \<open>B\<close> into \<open>({2}, 0)\<close>: no sentence \<open>({3}, 1)\<close> exists after the pass.
  \<^item> With the list \<open>[E, E, E, A, B]\<close>, \<open>E\<close> empty with count 0, the inference of the turn
    (whichever sentence is the new one) does turn \<open>A\<close> into \<open>({3}, 1)\<close>, but both passes
    over the list skip \<open>A\<close> while they remove the empty sentences, and the turn ends with
    no cell marked a mine.
\<close>

theorem subset_derivation_counterexample:
  "map_sum id statements
     (check_knowledge 2
        (knowledge_base [({(0, 1), (0, 2)}, 1), ({(0, 0), (0, 1)}, 1),
                         ({(0, 0), (0, 1), (0, 2)}, 2)])) =
     Inr [({(0, 1), (0, 2)}, 1), ({(0, 1)}, 0), ({(0, 0)}, 1)] \<and>
   map (\<lambda>r. map_sum id (\<lambda>s. (statements s, mines s))
               (infer r (knowledge_base [({}, 0), ({}, 0), ({}, 0),
                           ({(0, 0), (0, 1), (0, 2)}, 2), ({(0, 0), (0, 1)}, 1)])))
       [0, 1, 2, 3, 4] =
     replicate 5 (Inr ([({(0, 2)}, 1), ({(0, 0), (0, 1)}, 1)], {}))"
  by code_simp

text \<open>
  C1 as amended. Let the knowledge list hold no object twice, and hold
  \<open>A = ({x, y, z}, 2)\<close> and \<open>B = ({x, y}, 1)\<close> for three different cells, while no other
  sentence of the list has a strict subset of \<open>{x, y, z}\<close> as its cells (\<open>derivable\<close>).
  Then \<^verbatim>\<open>check_knowledge(A)\<close> and \<^verbatim>\<open>check_knowledge(B)\<close> each return with \<open>A\<close> mutated into
  \<open>({z}, 1)\<close> and still in the list. When \<open>A\<close> and \<open>B\<close> are the only sentences of the
  list, the inference that ends the turn (step 4, \<^verbatim>\<open>check_knowledge\<close> of the new sentence,
  the two passes), with either of them as the new sentence, returns with \<open>z\<close> in \<open>mines\<close>.
\<close>

theorem subset_derivation:
  assumes "derivable s a b x y z"
  shows "(\<exists>s'. check_knowledge a s = Inr s' \<and> a \<in> set (knowledge s') \<and>
               heap s' a = \<lparr>cells = {z}, count = 1\<rparr>) \<and>
         (\<exists>s'. check_knowledge b s = Inr s' \<and> a \<in> set (knowledge s') \<and>
               heap s' a = \<lparr>cells = {z}, count = 1\<rparr>) \<and>
         (set (knowledge s) = {a, b} \<longrightarrow>
            (\<exists>s'. infer a s = Inr s' \<and> z \<in> mines s') \<and>
            (\<exists>s'. infer b s = Inr s' \<and> z \<in> mines s'))"
proof (intro conjI impI)
  have a: "a \<in> set (knowledge s)" using assms by (simp add: derivable_def)
  show "\<exists>s'. check_knowledge a s = Inr s' \<and> a \<in> set (knowledge s') \<and>
               heap s' a = \<lparr>cells = {z}, count = 1\<rparr>"
    using derivable_check_superset [OF assms] a by simp
  show "\<exists>s'. check_knowledge b s = Inr s' \<and> a \<in> set (knowledge s') \<and>
               heap s' a = \<lparr>cells = {z}, count = 1\<rparr>"
    using derivable_check_subset [OF assms] a by simp
next
  assume "set (knowledge s) = {a, b}"
  then show "\<exists>s'. infer a s = Inr s' \<and> z \<in> mines s'"
    using two_statements_infer [OF assms, of a] by simp
next
  assume "set (knowledge s) = {a, b}"
  then show "\<exists>s'. infer b s = Inr s' \<and> z \<in> mines s'"
    using two_statements_infer [OF assms, of b] by simp
qed

theorem subset_derivation_witness:
  "derivable (knowledge_base [({(0, 0), (0, 1), (0, 2)}, 2), ({(0, 0), (0, 1)}, 1)])
     0 1 (0, 0) (0, 1) (0, 2) \<and>
   (\<exists>s'. check_knowledge 0
            (knowledge_base [({(0, 0), (0, 1), (0, 2)}, 2), ({(0, 0), (0, 1)}, 1)]) = Inr s' \<and>
         heap s' 0 = \<lparr>cells = {(0, 2)}, count = 1\<rparr>) \<and>
   (\<exists>s'. infer 1
            (knowledge_base [({(0, 0), (0, 1), (0, 2)}, 2), ({(0, 0), (0, 1)}, 1)]) = Inr s' \<and>
         (0, 2) \<in> mines s')"
proof -
  let ?s = "knowledge_base [({(0, 0), (0, 1), (0, 2)}, 2), ({(0, 0), (0, 1)}, 1)]"
  have two: "set (knowledge ?s) = {0, 1}"
    by (auto simp: knowledge_base_def)
  from subset_derivation [OF derivable_example] two
  have "\<exists>s'. check_knowledge 0 ?s = Inr s' \<and> 0 \<in> set (knowledge s') \<and>
               heap s' 0 = \<lparr>cells = {(0, 2)}, count = 1\<rparr>"
    and "\<exists>s'. infer 1 ?s = Inr s' \<and> (0, 2) \<in> mines s'"
    by blast+
  with derivable_example show ?thesis by blast
qed

text \<open>
  C2 (determinism of terminal statements). For every sentence, \<^verbatim>\<open>known_safes()\<close> returns
  exactly the sentence's cells when its count is 0 and \<^verbatim>\<open>None\<close> otherwise, and
  \<^verbatim>\<open>known_mines()\<close> returns exactly the cells when the count is positive and equals the
  number of cells, and \<^verbatim>\<open>None\<close> otherwise.
\<close>

theorem known_terminal_statements:
  "known_safes s = (if count s = 0 then Some (cells s) else None) \<and>
   known_mines s =
     (if 0 < count s \<and> count s = int (card (cells s)) then Some (cells s) else None)"
  by (auto simp: known_safes_def known_mines_def)

text \<open>
  C3 (statement-count invariant). On a board built by \<^verbatim>\<open>Minesweeper.__init__\<close>, take any
  sequence of turns, each revealing a cell that is not a mine and passing
  \<^verbatim>\<open>add_knowledge\<close> the count \<^verbatim>\<open>nearby_mines\<close> gives for it. Every turn returns without
  an exception, and in the state after the sequence every sentence of the knowledge
  list has \<open>0 \<le> count \<le> |cells|\<close>. The sequence is arbitrary, so this holds between
  any two turns.
\<close>

theorem statement_count_invariant:
  assumes "minesweeper_init h w n ds = Some (Inr g)"
    and "\<forall>c\<in>set cs. c \<notin> ms_mines g"
  shows "\<exists>s. turns g cs (ai_init h w) = Inr s \<and>
           (\<forall>r\<in>set (knowledge s).
              0 \<le> count (heap s r) \<and> count (heap s r) \<le> int (card (cells (heap s r))))"
proof -
  from minesweeper_init_ok [OF assms(1)]
  have g: "board_ok g" and dims: "ms_height g = h" "ms_width g = w" by simp_all
  have "\<forall>op\<in>set (map Add_knowledge cs). consistent g op"
    using assms(2) by simp
  from fits_run [OF g this fits_init] obtain s
    where s: "run g (map Add_knowledge cs) (ai_init h w) = Inr s" "fits g s"
    using dims by auto
  from s(2) have "sound (ms_mines g) s" by (simp add: fits_def)
  then have "\<forall>r\<in>set (knowledge s).
      0 \<le> count (heap s r) \<and> count (heap s r) \<le> int (card (cells (heap s r)))"
    using sound_count_bounds by blast
  with s(1) show ?thesis by (auto simp: turns_def)
qed

theorem statement_count_invariant_witness:
  "minesweeper_init 3 3 4 [(0, 0), (0, 2), (2, 0), (2, 2)] = Some (Inr corner_board) \<and>
   (\<exists>s. turns corner_board [(0, 1), (1, 0), (1, 2), (2, 1), (1, 1)] (ai_init 3 3) = Inr s \<and>
      (\<forall>r\<in>set (knowledge s).
         0 \<le> count (heap s r) \<and> count (heap s r) \<le> int (card (cells (heap s r)))))"
proof -
  have "\<forall>c\<in>set [(0, 1), (1, 0), (1, 2), (2, 1), (1, 1)]. c \<notin> ms_mines corner_board"
    by (simp add: corner_board_def)
  from statement_count_invariant [OF corner_board_init this] corner_board_init
  show ?thesis by simp
qed

text \<open>
  C4 (disjointness invariant). On a board built by \<^verbatim>\<open>Minesweeper.__init__\<close>, take any
  sequence of operations on the knowledge base that are consistent with the board:
  turns (\<^verbatim>\<open>add_knowledge\<close> with the board's count for a cell that is not a mine),
  \<^verbatim>\<open>mark_mine\<close> of a mine, \<^verbatim>\<open>mark_safe\<close> of a cell that is not a mine, and
  \<^verbatim>\<open>check_knowledge\<close> of a sentence of the knowledge list. Starting from the initial
  state, every operation returns without an exception and the state after the sequence
  has \<open>safes \<inter> mines = \<emptyset>\<close>. The sequence is arbitrary, so this holds after
  every operation.
\<close>

theorem safes_mines_disjoint:
  assumes "minesweeper_init h w n ds = Some (Inr g)"
    and "\<forall>op\<in>set ops. consistent g op"
  shows "\<exists>s. run g ops (ai_init h w) = Inr s \<and> safes s \<inter> mines s = {}"
proof -
  from minesweeper_init_ok [OF assms(1)]
  have g: "board_ok g" and dims: "ms_height g = h" "ms_width g = w" by simp_all
  from fits_run [OF g assms(2) fits_init] obtain s
    where s: "run g ops (ai_init h w) = Inr s" "fits g s"
    using dims by auto
  from s(2) have "sound (ms_mines g) s" by (simp add: fits_def)
  then have "safes s \<inter> mines s = {}" by (rule sound_disjoint)
  with s(1) show ?thesis by blast
qed

theorem safes_mines_disjoint_witness:
  "minesweeper_init 3 3 4 [(0, 0), (0, 2), (2, 0), (2, 2)] = Some (Inr corner_board) \<and>
   (\<exists>s. run corner_board
           [Add_knowledge (0, 1), Mark_mine (0, 0), Check_knowledge 0, Mark_safe (1, 1),
            Add_knowledge (1, 0)] (ai_init 3 3) = Inr s \<and>
         safes s \<inter> mines s = {})"
proof -
  have "\<forall>op\<in>set [Add_knowledge (0, 1), Mark_mine (0, 0), Check_knowledge 0, Mark_safe (1, 1),
            Add_knowledge (1, 0)]. consistent corner_board op"
    by (simp add: corner_board_def)
  from safes_mines_disjoint [OF corner_board_init this] corner_board_init
  show ?thesis by simp
qed

text \<open>
  C5 (random-move heuristic) fails on the code. On \<open>line_board\<close>, the cell \<open>(0, 1)\<close> is
  revealed and \<^verbatim>\<open>make_random_move\<close> is called: it enters the scores of \<open>(0, 0)\<close> and
  \<open>(0, 2)\<close> in the table and returns \<open>(0, 0)\<close>. That cell is revealed; the turn marks
  \<open>(0, 2)\<close> a mine and leaves no sentence. A second \<^verbatim>\<open>make_random_move\<close> finds no
  sentence, and no cell outside \<^verbatim>\<open>mines \<union> moves_made\<close> (\<open>first_free\<close> is \<^verbatim>\<open>None\<close>),
  so C5 has it return no move. It returns \<open>(0, 0)\<close>, a move already made, read from the
  table the first call filled.
\<close>

theorem random_move_stale_table:
  "\<exists>s1 s2 tbl.
     turns line_board [(0, 1)] (ai_init 1 3) = Inr s1 \<and>
     make_random_move s1 [] = (Inr (Some (0, 0)), tbl) \<and>
     turns line_board [(0, 0)] s1 = Inr s2 \<and>
     statements s2 = [] \<and> first_free s2 = None \<and> (0, 0) \<in> moves_made s2 \<and>
     make_random_move s2 tbl = (Inr (Some (0, 0)), tbl)"
proof (cases "turns line_board [(0, 1)] (ai_init 1 3)")
  case (Inl e)
  with line_play show ?thesis by simp
next
  case s1: (Inr s1)
  show ?thesis
  proof (cases "turns line_board [(0, 0)] s1")
    case (Inl e)
    with s1 line_play show ?thesis by simp
  next
    case (Inr s2)
    with s1 line_play show ?thesis by auto
  qed
qed

text \<open>
  C6 (totality) fails on the code. On \<open>corner_board\<close> the five cells that are not
  mines are revealed, each turn passing \<^verbatim>\<open>add_knowledge\<close> the board's count. Every turn
  returns, but the last one leaves a sentence with no cells in the knowledge list: the
  turn makes five sentences empty at once, and each \<^verbatim>\<open>check_knowledge\<close> that removes one
  from the list while the list is iterated makes the iteration skip the next. In that
  state \<^verbatim>\<open>make_safe_move\<close> has no move, and \<^verbatim>\<open>make_random_move\<close> divides the count by
  \<^verbatim>\<open>len(sentence.cells) = 0\<close> and raises \<^verbatim>\<open>ZeroDivisionError\<close>.
\<close>

theorem random_move_zero_division:
  "\<exists>s. turns corner_board [(0, 1), (1, 0), (1, 2), (2, 1), (1, 1)] (ai_init 3 3) = Inr s \<and>
       statements s = [({}, 0)] \<and> make_safe_move s = None \<and>
       fst (make_random_move s []) = Inl ZeroDivisionError"
  using corner_play
  by (cases "turns corner_board [(0, 1), (1, 0), (1, 2), (2, 1), (1, 1)] (ai_init 3 3)") auto

text \<open>
  C7 (new-statement construction), as stated for every call, fails on the code when a
  cell is in both \<open>safes\<close> and \<open>mines\<close>. The knowledge base of a 1 by 3 board is told
  \<^verbatim>\<open>add_knowledge((0, 0), 1)\<close>, which marks \<open>(0, 1)\<close> a mine, then
  \<^verbatim>\<open>add_knowledge((0, 1), 0)\<close>, which marks \<open>(0, 1)\<close> safe: the cell is now in both sets.
  The only neighbour of \<open>(0, 2)\<close> is \<open>(0, 1)\<close>, which is in \<open>mines\<close>, so for a call
  \<^verbatim>\<open>add_knowledge((0, 2), 1)\<close> C7 gives the inserted sentence the count \<open>1 - 1 = 0\<close>. The
  code takes the safe cells out of the neighbourhood first (line 239), so \<open>(0, 1)\<close> is
  not among the cells it looks up in \<open>mines\<close> (lines 242 to 244): the sentence it
  inserts has no cells and the count 1.
\<close>

theorem new_statement_construction_counterexample:
  "map_sum id
     (\<lambda>s. (safes s \<inter> mines s,
           cells (heap (insert_sentence (0, 2) 1 s) (next_ref s)),
           count (heap (insert_sentence (0, 2) 1 s) (next_ref s)),
           1 - int (card (neighbourhood (height s) (width s) (0, 2) \<inter> mines s))))
     (add_knowledge_calls [((0, 0), 1), ((0, 1), 0)] (ai_init 1 3)) =
   Inr ({(0, 1)}, {}, 1, 0)"
  by code_simp

text \<open>
  C7 as amended. For every call \<^verbatim>\<open>add_knowledge(cell, count)\<close>, in every state, one
  sentence is appended to the knowledge list (the state \<open>insert_sentence\<close> is the one at
  line 246, and \<open>add_knowledge\<close> runs the turn's inference on it). The cells of that
  sentence are the neighbourhood of the cell without the cells already in \<open>safes\<close> and
  without the cells already in \<open>mines\<close>. Its count is the given count minus the number
  of neighbours that are already in \<open>mines\<close> and not already in \<open>safes\<close>; when no cell
  is in both \<open>safes\<close> and \<open>mines\<close>, that is the given count minus the number of
  neighbours already in \<open>mines\<close>.
\<close>

theorem new_statement_construction:
  "add_knowledge c n s = infer (next_ref s) (insert_sentence c n s) \<and>
   knowledge (insert_sentence c n s) = knowledge s @ [next_ref s] \<and>
   cells (heap (insert_sentence c n s) (next_ref s)) =
     neighbourhood (height s) (width s) c - safes s - mines s \<and>
   count (heap (insert_sentence c n s) (next_ref s)) =
     n - int (card ((neighbourhood (height s) (width s) c - safes s) \<inter> mines s)) \<and>
   (safes s \<inter> mines s = {} \<longrightarrow>
      count (heap (insert_sentence c n s) (next_ref s)) =
        n - int (card (neighbourhood (height s) (width s) c \<inter> mines s)))"
proof -
  have "(neighbourhood (height s) (width s) c - safes s) \<inter> mines s
        = neighbourhood (height s) (width s) c \<inter> mines s" if "safes s \<inter> mines s = {}"
    using that by auto
  then show ?thesis by (simp add: heap_insert_sentence add_knowledge_def)
qed

theorem new_statement_construction_witness:
  "safes ((ai_init 3 3)\<lparr>mines := {(0, 0)}, safes := {(0, 1)}\<rparr>) \<inter>
     mines ((ai_init 3 3)\<lparr>mines := {(0, 0)}, safes := {(0, 1)}\<rparr>) = {} \<and>
   cells (heap (insert_sentence (1, 1) 2 ((ai_init 3 3)\<lparr>mines := {(0, 0)}, safes := {(0, 1)}\<rparr>))
            (next_ref ((ai_init 3 3)\<lparr>mines := {(0, 0)}, safes := {(0, 1)}\<rparr>))) =
     {(0, 2), (1, 0), (1, 2), (2, 0), (2, 1), (2, 2)} \<and>
   count (heap (insert_sentence (1, 1) 2 ((ai_init 3 3)\<lparr>mines := {(0, 0)}, safes := {(0, 1)}\<rparr>))
            (next_ref ((ai_init 3 3)\<lparr>mines := {(0, 0)}, safes := {(0, 1)}\<rparr>))) = 1"
proof -
  let ?s = "(ai_init 3 3)\<lparr>mines := {(0, 0)}, safes := {(0, 1)}\<rparr>"
  have disj: "safes ?s \<inter> mines ?s = {}" by simp
  have dims: "height ?s = 3" "width ?s = 3" "safes ?s = {(0, 1)}" "mines ?s = {(0, 0)}"
    by (simp_all add: ai_init_def)
  have c: "neighbourhood 3 3 (1, 1) - {(0, 1)} - {(0, 0)} =
        {(0, 2), (1, 0), (1, 2), (2, 0), (2, 1), (2, 2)}"
    by (auto simp: neighbourhood_centre)
  have m: "neighbourhood 3 3 (1, 1) \<inter> {(0, 0)} = {(0, 0)}"
    by (auto simp: neighbourhood_centre)
  from new_statement_construction [of "(1, 1)" 2 ?s] disj
  have "cells (heap (insert_sentence (1, 1) 2 ?s) (next_ref ?s)) =
          neighbourhood (height ?s) (width ?s) (1, 1) - safes ?s - mines ?s"
    and "count (heap (insert_sentence (1, 1) 2 ?s) (next_ref ?s)) =
          2 - int (card (neighbourhood (height ?s) (width ?s) (1, 1) \<inter> mines ?s))"
    by blast+
  then have "cells (heap (insert_sentence (1, 1) 2 ?s) (next_ref ?s)) =
          {(0, 2), (1, 0), (1, 2), (2, 0), (2, 1), (2, 2)}"
    and "count (heap (insert_sentence (1, 1) 2 ?s) (next_ref ?s)) = 1"
    by (simp_all only: dims c m) simp_all
  with disj show ?thesis by blast
qed

text \<open>
  C8 (propagation idempotence). For every cell \<open>c\<close> and every state of the knowledge
  base, calling \<^verbatim>\<open>MinesweeperAI.mark_mine(c)\<close> twice in succession leaves the whole state
  (the mine set, the sentence objects and everything else) identical to calling it
  once; and \<^verbatim>\<open>Sentence.mark_mine(c)\<close> changes nothing in a sentence whose cells do not
  contain \<open>c\<close>.
\<close>

theorem mark_mine_twice:
  "ai_mark_mine c (ai_mark_mine c s) = ai_mark_mine c s \<and>
   mark_mine c (sen\<lparr>cells := cells sen - {c}\<rparr>) = sen\<lparr>cells := cells sen - {c}\<rparr>"
proof
  show "ai_mark_mine c (ai_mark_mine c s) = ai_mark_mine c s"
    by (rule ai.equality) (simp_all add: mark_mine_idem fun_eq_iff)
  show "mark_mine c (sen\<lparr>cells := cells sen - {c}\<rparr>) = sen\<lparr>cells := cells sen - {c}\<rparr>"
    by (simp add: mark_mine_def)
qed

text \<open>
  C9 (the shared score table), where it says that a call of \<^verbatim>\<open>make_random_move\<close> only
  adds entries or increases accumulated scores, fails on the code when a sentence has a
  negative count. The knowledge base of a 1 by 4 board is told \<^verbatim>\<open>add_knowledge((0, 0), 1)\<close>,
  which marks \<open>(0, 1)\<close> a mine, then \<^verbatim>\<open>add_knowledge((0, 2), 0)\<close>: the new sentence
  \<open>({(0, 1), (0, 3)}, 0)\<close> loses the known mine \<open>(0, 1)\<close> and one from its count, and
  \<open>({(0, 3)}, -1)\<close> stays in the knowledge list. A first \<^verbatim>\<open>make_random_move\<close> on the empty
  table enters the score \<open>-1\<close> for \<open>(0, 3)\<close>; a second one adds no entry and lowers that
  score to \<open>-2\<close> (lines 333 to 338). Both scores are the same on floats.
\<close>

theorem score_table_counterexample:
  "map_sum id
     (\<lambda>s. (statements s, snd (make_random_move s []),
           snd (make_random_move s (snd (make_random_move s [])))))
     (add_knowledge_calls [((0, 0), 1), ((0, 2), 0)] (ai_init 1 4)) =
   Inr ([({(0, 3)}, - 1)], [((0, 3), - 1)], [((0, 3), - 2)])"
  by code_simp

text \<open>
  C9 as amended. The score table \<^verbatim>\<open>Cell_stat.all_cell\<close> is one dictionary for all instances:
  any sequence of calls of \<^verbatim>\<open>make_random_move\<close>, by knowledge bases in any states, works on
  the same table, and no other operation of the program reads or writes it, which is why
  only \<open>make_random_move\<close> has it as an argument and a result. No call removes a key or
  resets the table: every key of the table before the calls is a key after them, whether
  the calls returned or raised. A call changes a score of the table only by adding to it
  the quotient \<^verbatim>\<open>count/len(cells)\<close> of each sentence it scores that holds the cell, a
  negative amount when the count is negative: after the calls the score is the score
  before them with the quotients of all the calls added to it, one by one, so what
  earlier calls contributed stays in it. This holds for any division \<open>fdiv\<close> and any
  addition \<open>fadd\<close>, so for those of floats; the table that \<open>make_random_move\<close> returns is
  the one of the exact division and addition.
\<close>

theorem score_table_persists:
  "fst ` set tbl \<subseteq> fst ` set (score_calls fdiv fadd ss tbl) \<and>
   (\<forall>k v. map_of tbl k = Some v \<longrightarrow>
           map_of (score_calls fdiv fadd ss tbl) k =
             Some (accumulate fadd v (all_contributions fdiv ss k))) \<and>
   random_moves ss rtbl = score_calls exact_quot (+) ss rtbl"
proof (intro conjI allI impI)
  show "fst ` set tbl \<subseteq> fst ` set (score_calls fdiv fadd ss tbl)"
    by (rule keys_score_calls)
next
  fix k v
  assume "map_of tbl k = Some v"
  then show "map_of (score_calls fdiv fadd ss tbl) k =
               Some (accumulate fadd v (all_contributions fdiv ss k))"
    by (rule map_of_score_calls)
next
  show "random_moves ss rtbl = score_calls exact_quot (+) ss rtbl"
    by (rule random_moves_exact)
qed

theorem score_table_persists_witness:
  "map_of [((0, 0), 1 / 2)] ((0, 0) :: cell) = Some (1 / 2 :: rat) \<and>
   all_contributions exact_quot [(ai_init 1 3)\<lparr>knowledge := [0],
       heap := (\<lambda>_. \<lparr>cells = {(0, 0), (0, 2)}, count = 1\<rparr>)\<rparr>] (0, 0) = [1 / 2] \<and>
   map_of (score_calls exact_quot (+) [(ai_init 1 3)\<lparr>knowledge := [0],
       heap := (\<lambda>_. \<lparr>cells = {(0, 0), (0, 2)}, count = 1\<rparr>)\<rparr>] [((0, 0), 1 / 2)]) (0, 0) = Some 1"
proof -
  let ?s = "(ai_init 1 3)\<lparr>knowledge := [0],
       heap := (\<lambda>_. \<lparr>cells = {(0, 0), (0, 2)}, count = 1\<rparr>)\<rparr>"
  have a: "map_of [((0, 0), 1 / 2)] ((0, 0) :: cell) = Some (1 / 2 :: rat)" by simp
  have g: "all_contributions exact_quot [?s] (0, 0) = [1 / 2]"
    by (simp add: exact_quot_def)
  have "map_of (score_calls exact_quot (+) [?s] [((0, 0), 1 / 2)]) (0, 0) =
          Some (accumulate (+) (1 / 2) (all_contributions exact_quot [?s] (0, 0)))"
    by (rule score_table_persists [of "[((0, 0), 1 / 2)]" exact_quot "(+)" "[?s]",
          THEN conjunct2, THEN conjunct1, rule_format, OF a])
  then have "map_of (score_calls exact_quot (+) [?s] [((0, 0), 1 / 2)]) (0, 0) = Some 1"
    by (simp only: g) simp
  with a g show ?thesis by (intro conjI)
qed

text \<open>
  C10. When \<^verbatim>\<open>Minesweeper.__init__(height, width, mines)\<close> returns, the mine set and the
  grid agree: for every cell \<open>(i, j)\<close> of the grid, \<^verbatim>\<open>is_mine((i, j))\<close> returns whether
  \<open>(i, j)\<close> is in the mine set. The mine set is finite, has exactly \<open>mines\<close> elements, and
  all of them are cells of the grid. No sequence of calls of the other methods of the
  class changes the mine set or the grid. This holds of every return of the
  constructor, so in particular when \<open>mines\<close> is at most \<open>height * width\<close>; by
  \<open>minesweeper_init_returns\<close> there are then draws with which it returns.
\<close>

theorem init_board_agrees:
  assumes "minesweeper_init h w n ds = Some (Inr g)"
  shows "(\<forall>d. in_bounds h w d \<longrightarrow> is_mine g d = Inr (d \<in> ms_mines g)) \<and>
         finite (ms_mines g) \<and> int (card (ms_mines g)) = n \<and>
         (\<forall>d\<in>ms_mines g. in_bounds h w d) \<and>
         (\<forall>calls. ms_mines (fold ms_after calls g) = ms_mines g \<and>
                  board (fold ms_after calls g) = board g)"
proof -
  from minesweeper_init_ok [OF assms]
  have g: "board_ok g" and n: "int (card (ms_mines g)) = n"
    and dims: "ms_height g = h" "ms_width g = w" by simp_all
  have sub: "ms_mines g \<subseteq> {d. in_bounds h w d}"
    using g dims by (auto simp: board_ok_def)
  then have "finite (ms_mines g)"
    by (rule finite_subset) (rule finite_in_bounds)
  moreover have "\<forall>d. in_bounds h w d \<longrightarrow> is_mine g d = Inr (d \<in> ms_mines g)"
    using board_ok_is_mine [OF g] dims by simp
  ultimately show ?thesis using n sub by auto
qed

theorem init_board_agrees_witness:
  "minesweeper_init 3 3 4 [(0, 0), (0, 2), (2, 0), (2, 2)] = Some (Inr corner_board) \<and>
   is_mine corner_board (0, 2) = Inr True \<and> is_mine corner_board (1, 2) = Inr False \<and>
   card (ms_mines corner_board) = 4"
proof -
  have "in_bounds 3 3 (0, 2)" and "in_bounds 3 3 (1, 2)"
    by (simp_all add: in_bounds_def)
  with init_board_agrees [OF corner_board_init] corner_board_init
  have "is_mine corner_board (0, 2) = Inr ((0, 2) \<in> ms_mines corner_board)"
    and "is_mine corner_board (1, 2) = Inr ((1, 2) \<in> ms_mines corner_board)"
    and "int (card (ms_mines corner_board)) = 4"
    by blast+
  then show ?thesis using corner_board_init by (simp add: corner_board_def)
qed

end
